theory Spec2Isabelle
  imports Main "HOL-Library.Word" "HOL-Library.Sublist"
begin

unbundle bit_operations_syntax
section \<open>The access ledger: server/contract.sol (TimeBoundFileRegistry)\<close>

text \<open>
  Solidity value types: \<open>address\<close> is 160 bits, \<open>bytes32\<close> and \<open>uint256\<close> are 256 bits,
  \<open>bytes\<close> is a byte string. A \<open>mapping\<close> is a total function whose unset entries are
  the all-zero record. A failed \<open>require\<close> reverts the call: the model returns the
  revert string on the left and leaves the state as it was. The events a call emits are
  left out: no function of the contract reads them.
\<close>

type_synonym address = "160 word"
type_synonym bytes32 = "256 word"
type_synonym uint256 = "256 word"
type_synonym bytes = "8 word list"

record FileRecord =
  fr_cid :: string
  fr_encryptedKey :: bytes
  fr_timestamp :: uint256
  fr_revoked :: bool
  fr_exists :: bool

record AccessRecord =
  ar_encryptedKeyForGrantee :: bytes
  ar_start :: uint256
  ar_end :: uint256
  ar_revoked :: bool
  ar_exists :: bool

record registry =
  uploads :: "address \<Rightarrow> bytes32 \<Rightarrow> FileRecord"
  access :: "bytes32 \<Rightarrow> address \<Rightarrow> AccessRecord"

definition zeroFileRecord :: FileRecord where
  "zeroFileRecord = \<lparr>fr_cid = [], fr_encryptedKey = [], fr_timestamp = 0,
     fr_revoked = False, fr_exists = False\<rparr>"

definition zeroAccessRecord :: AccessRecord where
  "zeroAccessRecord = \<lparr>ar_encryptedKeyForGrantee = [], ar_start = 0, ar_end = 0,
     ar_revoked = False, ar_exists = False\<rparr>"

definition deployed :: registry where
  "deployed = \<lparr>uploads = (\<lambda>_ _. zeroFileRecord), access = (\<lambda>_ _. zeroAccessRecord)\<rparr>"

text \<open>
  \<open>keccak256\<close> is a primitive of the EVM, not code of the contract: every function takes
  it as the parameter \<open>keccak\<close>. \<open>abi.encodePacked\<close> of a string is its bytes; of an
  address and a bytes32 it is the 20 bytes of the address followed by the 32 bytes of the
  hash, both big-endian.
\<close>

definition be_bytes :: "nat \<Rightarrow> 'a::len word \<Rightarrow> bytes" where
  "be_bytes n w = map (\<lambda>i. ucast (drop_bit (8 * i) w)) (rev [0..<n])"

definition string_bytes :: "string \<Rightarrow> bytes" where
  "string_bytes s = map (\<lambda>c. of_nat (of_char c)) s"

definition cidHash :: "(bytes \<Rightarrow> bytes32) \<Rightarrow> string \<Rightarrow> bytes32" where
  "cidHash keccak cid = keccak (string_bytes cid)"

definition fileKey :: "(bytes \<Rightarrow> bytes32) \<Rightarrow> address \<Rightarrow> bytes32 \<Rightarrow> bytes32" where
  "fileKey keccak owner h = keccak (be_bytes 20 owner @ be_bytes 32 h)"

text \<open>The transaction context: \<open>msg.sender\<close> and \<open>block.timestamp\<close>.\<close>

record txctx =
  sender :: address
  timestamp :: uint256

definition uploadFile ::
  "(bytes \<Rightarrow> bytes32) \<Rightarrow> txctx \<Rightarrow> string \<Rightarrow> bytes \<Rightarrow> registry \<Rightarrow> string + registry" where
  "uploadFile keccak tx cid encryptedKey s =
     (if \<not> length cid > 0 then Inl ''CID_REQUIRED''
      else if \<not> length encryptedKey > 0 then Inl ''ENCRYPTED_KEY_REQUIRED''
      else let h = cidHash keccak cid; rec = uploads s (sender tx) h in
        if fr_exists rec then Inl ''ALREADY_EXISTS''
        else Inr (s\<lparr>uploads := (uploads s)(sender tx := (uploads s (sender tx))(h :=
               \<lparr>fr_cid = cid, fr_encryptedKey = encryptedKey, fr_timestamp = timestamp tx,
                fr_revoked = False, fr_exists = True\<rparr>))\<rparr>))"

definition updateEncryptedKey ::
  "(bytes \<Rightarrow> bytes32) \<Rightarrow> txctx \<Rightarrow> string \<Rightarrow> bytes \<Rightarrow> registry \<Rightarrow> string + registry" where
  "updateEncryptedKey keccak tx cid newEncryptedKey s =
     (if \<not> length cid > 0 then Inl ''CID_REQUIRED''
      else if \<not> length newEncryptedKey > 0 then Inl ''NEW_KEY_REQUIRED''
      else let h = cidHash keccak cid; rec = uploads s (sender tx) h in
        if \<not> fr_exists rec then Inl ''NOT_FOUND''
        else if fr_revoked rec then Inl ''REVOKED''
        else Inr (s\<lparr>uploads := (uploads s)(sender tx := (uploads s (sender tx))(h :=
               rec\<lparr>fr_encryptedKey := newEncryptedKey, fr_timestamp := timestamp tx\<rparr>))\<rparr>))"

definition revokeFile ::
  "(bytes \<Rightarrow> bytes32) \<Rightarrow> txctx \<Rightarrow> string \<Rightarrow> registry \<Rightarrow> string + registry" where
  "revokeFile keccak tx cid s =
     (let h = cidHash keccak cid; rec = uploads s (sender tx) h in
        if \<not> fr_exists rec then Inl ''NOT_FOUND''
        else if fr_revoked rec then Inl ''ALREADY_REVOKED''
        else Inr (s\<lparr>uploads := (uploads s)(sender tx := (uploads s (sender tx))(h :=
               rec\<lparr>fr_revoked := True, fr_timestamp := timestamp tx\<rparr>))\<rparr>))"

definition grantAccess ::
  "(bytes \<Rightarrow> bytes32) \<Rightarrow> txctx \<Rightarrow> address \<Rightarrow> string \<Rightarrow> bytes \<Rightarrow> uint256 \<Rightarrow> uint256 \<Rightarrow>
     registry \<Rightarrow> string + registry" where
  "grantAccess keccak tx grantee cid encryptedKeyForGrantee start end' s =
     (if \<not> grantee \<noteq> 0 then Inl ''INVALID_GRANTEE''
      else if \<not> length cid > 0 then Inl ''CID_REQUIRED''
      else if \<not> length encryptedKeyForGrantee > 0 then Inl ''ENCRYPTED_KEY_REQUIRED''
      else if \<not> end' > start then Inl ''END_MUST_BE_GT_START''
      else let h = cidHash keccak cid; rec = uploads s (sender tx) h in
        if \<not> fr_exists rec then Inl ''OWNER_FILE_NOT_FOUND''
        else if fr_revoked rec then Inl ''OWNER_FILE_REVOKED''
        else let fk = fileKey keccak (sender tx) h; arec = access s fk grantee in
          Inr (s\<lparr>access := (access s)(fk := (access s fk)(grantee :=
                 arec\<lparr>ar_encryptedKeyForGrantee := encryptedKeyForGrantee,
                      ar_start := start, ar_end := end',
                      ar_revoked := False, ar_exists := True\<rparr>))\<rparr>))"

definition revokeAccess ::
  "(bytes \<Rightarrow> bytes32) \<Rightarrow> txctx \<Rightarrow> address \<Rightarrow> string \<Rightarrow> registry \<Rightarrow> string + registry" where
  "revokeAccess keccak tx grantee cid s =
     (if \<not> grantee \<noteq> 0 then Inl ''INVALID_GRANTEE''
      else let h = cidHash keccak cid; fk = fileKey keccak (sender tx) h;
               arec = access s fk grantee in
        if \<not> ar_exists arec then Inl ''ACCESS_NOT_FOUND''
        else if ar_revoked arec then Inl ''ACCESS_ALREADY_REVOKED''
        else Inr (s\<lparr>access := (access s)(fk := (access s fk)(grantee :=
               arec\<lparr>ar_revoked := True\<rparr>))\<rparr>))"

definition getAccess ::
  "(bytes \<Rightarrow> bytes32) \<Rightarrow> registry \<Rightarrow> address \<Rightarrow> string \<Rightarrow> address \<Rightarrow> AccessRecord" where
  "getAccess keccak s owner cid grantee =
     access s (fileKey keccak owner (cidHash keccak cid)) grantee"

definition getFile :: "(bytes \<Rightarrow> bytes32) \<Rightarrow> registry \<Rightarrow> address \<Rightarrow> string \<Rightarrow> FileRecord" where
  "getFile keccak s owner cid = uploads s owner (cidHash keccak cid)"

text \<open>\<open>isAccessActive\<close> is a view: it reads the state and \<open>block.timestamp\<close> (\<open>nowTs\<close>).\<close>

definition isAccessActive ::
  "(bytes \<Rightarrow> bytes32) \<Rightarrow> registry \<Rightarrow> uint256 \<Rightarrow> address \<Rightarrow> string \<Rightarrow> address \<Rightarrow> bool" where
  "isAccessActive keccak s nowTs owner cid grantee =
     (let h = cidHash keccak cid; rec = uploads s owner h in
        if \<not> fr_exists rec \<or> fr_revoked rec then False
        else let fk = fileKey keccak owner h; arec = access s fk grantee in
          if \<not> ar_exists arec \<or> ar_revoked arec then False
          else ar_start arec \<le> nowTs \<and> nowTs < ar_end arec)"

text \<open>A stand-in hash for running the contract on concrete inputs.\<close>

definition toyHash :: "bytes \<Rightarrow> bytes32" where
  "toyHash bs = of_nat (length bs)"

text \<open>
  A concrete history on the stand-in hash: owner 1 registers a file, grants account 2 the
  window from 10 to 20, revokes the grant, and grants again with the window from 30 to 40.
\<close>

definition ownerTx :: txctx where
  "ownerTx = \<lparr>sender = 1, timestamp = 100\<rparr>"

definition afterUpload :: registry where
  "afterUpload = (case uploadFile toyHash ownerTx ''Qmabc'' [1] deployed of
                    Inr s \<Rightarrow> s | Inl _ \<Rightarrow> deployed)"

definition afterGrant :: registry where
  "afterGrant = (case grantAccess toyHash ownerTx 2 ''Qmabc'' [7] 10 20 afterUpload of
                   Inr s \<Rightarrow> s | Inl _ \<Rightarrow> afterUpload)"

definition afterRevoke :: registry where
  "afterRevoke = (case revokeAccess toyHash ownerTx 2 ''Qmabc'' afterGrant of
                    Inr s \<Rightarrow> s | Inl _ \<Rightarrow> afterGrant)"

definition afterRegrant :: registry where
  "afterRegrant = (case grantAccess toyHash ownerTx 2 ''Qmabc'' [8] 30 40 afterRevoke of
                     Inr s \<Rightarrow> s | Inl _ \<Rightarrow> afterRevoke)"

section \<open>The chunk cipher: frontend/src/services/cryptoService.ts\<close>

text \<open>
  \<open>crypto.subtle.encrypt\<close> and \<open>crypto.subtle.decrypt\<close> with \<open>{name: "AES-GCM", iv,
  additionalData}\<close> belong to the browser, not to the repository: the model takes them as
  the two fields of a record. Decryption returns \<open>None\<close> where the browser rejects the
  promise with an OperationError. The type \<open>'k\<close> stands for \<open>CryptoKey\<close>.
\<close>

record 'k aes_gcm =
  subtle_encrypt :: "'k \<Rightarrow> bytes \<Rightarrow> bytes \<Rightarrow> bytes \<Rightarrow> bytes"
  subtle_decrypt :: "'k \<Rightarrow> bytes \<Rightarrow> bytes \<Rightarrow> bytes \<Rightarrow> bytes option"

text \<open>
  What AES-GCM guarantees without any appeal to probability: decryption under the same
  key, nonce and associated data undoes encryption, and the ciphertext is the plaintext's
  length plus the 16 bytes of the tag.
\<close>

definition aes_gcm_contract :: "'k aes_gcm \<Rightarrow> bool" where
  "aes_gcm_contract A \<longleftrightarrow>
     (\<forall>k iv aad p. subtle_decrypt A k iv aad (subtle_encrypt A k iv aad p) = Some p \<and>
                   length (subtle_encrypt A k iv aad p) = length p + 16)"

text \<open>
  \<open>chunkIndex.toString()\<close> of a chunk index (a natural number) is its decimal numeral;
  \<open>TextEncoder.encode\<close> of digits is one byte for each.
\<close>

definition digit_char :: "nat \<Rightarrow> char" where
  "digit_char d = char_of (48 + d)"

function toString :: "nat \<Rightarrow> string" where
  "toString n = (if n < 10 then [digit_char n] else toString (n div 10) @ [digit_char (n mod 10)])"
  by pat_completeness auto
termination
  by (relation "measure id") auto

declare toString.simps [simp del]

text \<open>Reading a decimal numeral back, for the proof that distinct indices print differently.\<close>

definition digit_value :: "char \<Rightarrow> nat" where
  "digit_value c = of_char c - 48"

definition fromDigits :: "string \<Rightarrow> nat" where
  "fromDigits s = foldl (\<lambda>a c. 10 * a + digit_value c) 0 s"

definition aad_of_index :: "nat \<Rightarrow> bytes" where
  "aad_of_index chunkIndex = string_bytes (toString chunkIndex)"

text \<open>
  \<open>encryptChunk\<close>: \<open>iv\<close> is what \<open>crypto.getRandomValues(new Uint8Array(12))\<close> returned.
  The result is the pair \<open>(packed, iv)\<close>, the packed bytes being the contents of the Blob.
\<close>

definition encryptChunk :: "'k aes_gcm \<Rightarrow> 'k \<Rightarrow> bytes \<Rightarrow> bytes \<Rightarrow> nat \<Rightarrow> bytes \<times> bytes" where
  "encryptChunk A key iv data chunkIndex =
     (let aad = aad_of_index chunkIndex;
          ciphertext = subtle_encrypt A key iv aad data;
          packed = iv @ ciphertext
      in (packed, iv))"

datatype decrypt_error = PackedDataTooSmall | OperationError

definition decryptChunk :: "'k aes_gcm \<Rightarrow> 'k \<Rightarrow> bytes \<Rightarrow> nat \<Rightarrow> decrypt_error + bytes" where
  "decryptChunk A key packed chunkIndex =
     (if length packed < 13 then Inl PackedDataTooSmall
      else let iv = take 12 packed;
               ciphertext = drop 12 packed;
               aad = aad_of_index chunkIndex
           in case subtle_decrypt A key iv aad ciphertext of
                None \<Rightarrow> Inl OperationError
              | Some plain \<Rightarrow> Inr plain)"

text \<open>
  A stand-in cipher for running the functions on concrete inputs: the plaintext followed
  by a 16-byte tag over key, nonce, associated data and plaintext. Like AES-GCM it rejects
  a ciphertext shorter than its tag.
\<close>

definition toyTag :: "bytes \<Rightarrow> bytes \<Rightarrow> bytes \<Rightarrow> bytes \<Rightarrow> bytes" where
  "toyTag k iv aad p = replicate 16 (sum_list (k @ iv @ aad @ p))"

definition toyGcm :: "bytes aes_gcm" where
  "toyGcm = \<lparr>subtle_encrypt = (\<lambda>k iv aad p. p @ toyTag k iv aad p),
             subtle_decrypt = (\<lambda>k iv aad c.
               if length c < 16 then None
               else let p = take (length c - 16) c in
                 if drop (length c - 16) c = toyTag k iv aad p then Some p else None)\<rparr>"

section \<open>The gateway fetcher: frontend/src/utils/ipfsGateway.ts\<close>

subsection \<open>Strings as JavaScript reads them\<close>

text \<open>
  A \<open>char\<close> is a code unit below 256. \<open>\s\<close> and \<open>trim\<close> take tab, line feed, vertical
  tab, form feed, carriage return, space and the no-break space as white space;
  \<open>[a-zA-Z0-9]\<close> is the ASCII letters and digits; \<open>toLowerCase\<close> maps the ASCII capitals.
\<close>

definition is_space :: "char \<Rightarrow> bool" where
  "is_space c \<longleftrightarrow> (of_char c :: nat) \<in> {9, 10, 11, 12, 13, 32, 160}"

definition is_alnum :: "char \<Rightarrow> bool" where
  "is_alnum c \<longleftrightarrow> (let n = (of_char c :: nat) in
     (97 \<le> n \<and> n \<le> 122) \<or> (65 \<le> n \<and> n \<le> 90) \<or> (48 \<le> n \<and> n \<le> 57))"

definition lower_char :: "char \<Rightarrow> char" where
  "lower_char c = (let n = (of_char c :: nat) in if 65 \<le> n \<and> n \<le> 90 then char_of (n + 32) else c)"

definition toLowerCase :: "string \<Rightarrow> string" where
  "toLowerCase s = map lower_char s"

definition trim :: "string \<Rightarrow> string" where
  "trim s = rev (dropWhile is_space (rev (dropWhile is_space s)))"

definition js_includes :: "string \<Rightarrow> string \<Rightarrow> bool" where
  "js_includes s needle = sublist needle s"

definition startsWith :: "string \<Rightarrow> string \<Rightarrow> bool" where
  "startsWith s p = prefix p s"

text \<open>\<open>/^[a-zA-Z0-9]+$/\<close> and \<open>/^[bBQm][a-zA-Z0-9]+$/\<close>.\<close>

definition alnum_plus :: "string \<Rightarrow> bool" where
  "alnum_plus s \<longleftrightarrow> s \<noteq> [] \<and> list_all is_alnum s"

definition cid_format :: "string \<Rightarrow> bool" where
  "cid_format s \<longleftrightarrow> (case s of [] \<Rightarrow> False
     | c # rest \<Rightarrow> c \<in> set ''bBQm'' \<and> alnum_plus rest)"

subsection \<open>sanitizeCID, sanitizePath, buildGatewayURLs\<close>

datatype cid_error = InvalidCID | InvalidCIDFormat string string

definition sanitizeCID :: "string \<Rightarrow> cid_error + string" where
  "sanitizeCID cid =
     (if cid = [] then Inl InvalidCID
      else let s0 = filter (\<lambda>c. \<not> is_space c) (trim cid);
               s1 = (if startsWith s0 ''q'' \<and> length s0 > 1 \<and> alnum_plus (drop 1 s0)
                     then (let withoutQ = drop 1 s0 in
                             if cid_format withoutQ then withoutQ else s0)
                     else s0);
               s2 = (if startsWith s1 ''0x'' then drop 2 s1 else s1)
           in if \<not> cid_format s2 then Inl (InvalidCIDFormat cid s2) else Inr s2)"

text \<open>\<open>replace(/^\/+|\/+$/g, '')\<close>, \<open>split('/')\<close> and \<open>join('/')\<close>.\<close>

definition stripSlashes :: "string \<Rightarrow> string" where
  "stripSlashes s = rev (dropWhile (\<lambda>c. c = CHR ''/'') (rev (dropWhile (\<lambda>c. c = CHR ''/'') s)))"

fun splitOn :: "char \<Rightarrow> string \<Rightarrow> string \<Rightarrow> string list" where
  "splitOn d cur [] = [rev cur]"
| "splitOn d cur (c # cs) = (if c = d then rev cur # splitOn d [] cs else splitOn d (c # cur) cs)"

fun joinWith :: "string \<Rightarrow> string list \<Rightarrow> string" where
  "joinWith d [] = []"
| "joinWith d [s] = s"
| "joinWith d (s # t # ss) = s @ d @ joinWith d (t # ss)"

text \<open>\<open>encodeURIComponent\<close> is the browser's: the parameter \<open>enc\<close>.\<close>

definition sanitizePath :: "(string \<Rightarrow> string) \<Rightarrow> string \<Rightarrow> string" where
  "sanitizePath enc path =
     (if path = [] then []
      else joinWith ''/'' (map enc (splitOn (CHR ''/'') [] (stripSlashes (trim path)))))"

text \<open>
  \<open>url.replace(/([^:])\/{2,}/g, '$1/')\<close>: a run of two or more slashes after a character
  that is not a colon becomes one slash.
\<close>

function cleanSlashes :: "string \<Rightarrow> string" where
  "cleanSlashes [] = []"
| "cleanSlashes [c] = [c]"
| "cleanSlashes (c # d # cs) =
     (if c \<noteq> CHR '':'' \<and> d = CHR ''/'' \<and> startsWith cs ''/''
      then c # CHR ''/'' # cleanSlashes (dropWhile (\<lambda>x. x = CHR ''/'') cs)
      else c # cleanSlashes (d # cs))"
  by pat_completeness auto
termination
  by (relation "measure length") (auto simp: length_dropWhile_le less_Suc_eq_le le_SucI)

definition buildGatewayURLs :: "(string \<Rightarrow> string) \<Rightarrow> string \<Rightarrow> string \<Rightarrow> string list" where
  "buildGatewayURLs enc cid path =
     (let sanitizedPath = sanitizePath enc path;
          pathSuffix = (if sanitizedPath \<noteq> [] then ''/'' @ sanitizedPath else [])
      in map cleanSlashes
           [''https://'' @ cid @ ''.ipfs.nftstorage.link'' @ pathSuffix,
            ''https://nftstorage.link/ipfs/'' @ cid @ pathSuffix,
            ''https://ipfs.io/ipfs/'' @ cid @ pathSuffix,
            ''https://cloudflare-ipfs.com/ipfs/'' @ cid @ pathSuffix,
            ''https://dweb.link/ipfs/'' @ cid @ pathSuffix,
            ''https://gateway.pinata.cloud/ipfs/'' @ cid @ pathSuffix,
            ''https://ipfs.filebase.io/ipfs/'' @ cid @ pathSuffix,
            ''https://cf-ipfs.com/ipfs/'' @ cid @ pathSuffix])"

subsection \<open>classifyError\<close>

text \<open>
  A thrown value: its \<open>name\<close>, its \<open>message\<close> and the \<open>status\<close> the fetcher attaches to the
  error it builds for a response that is not ok. \<open>String(error)\<close> of an error with an
  empty message is its name.
\<close>

record js_error =
  err_name :: string
  err_message :: string
  err_status :: "nat option"

record classification =
  c_type :: string
  c_message :: string
  retryable :: bool

definition status_truthy :: "js_error \<Rightarrow> bool" where
  "status_truthy e \<longleftrightarrow> (case err_status e of None \<Rightarrow> False | Some n \<Rightarrow> n \<noteq> 0)"

definition classifyError :: "js_error \<Rightarrow> classification" where
  "classifyError e =
     (let msg = toLowerCase (if err_message e \<noteq> [] then err_message e
                             else if err_name e \<noteq> [] then err_name e else ''Error'');
          name = err_name e
      in if js_includes msg ''ssl'' \<or> js_includes msg ''tls'' \<or> js_includes msg ''certificate'' \<or>
            js_includes msg ''err_ssl'' \<or> js_includes name ''SSL'' \<or> js_includes name ''TLS''
         then \<lparr>c_type = ''TLS_ERROR'',
               c_message = ''TLS/SSL handshake failed. This may be due to gateway certificate issues, corporate proxy, or browser TLS version.'',
               retryable = True\<rparr>
         else if js_includes msg ''network'' \<or> js_includes msg ''failed to fetch'' \<or>
                 js_includes msg ''err_network'' \<or> name = ''TypeError''
         then \<lparr>c_type = ''NETWORK_ERROR'',
               c_message = ''Network request failed. Check your internet connection.'',
               retryable = True\<rparr>
         else if js_includes msg ''timeout'' \<or> js_includes msg ''aborted'' \<or> name = ''AbortError''
         then \<lparr>c_type = ''TIMEOUT'',
               c_message = ''Request timed out. The gateway may be slow or unreachable.'',
               retryable = True\<rparr>
         else if js_includes msg ''cors'' \<or> js_includes msg ''cross-origin'' \<or> name = ''TypeError''
         then \<lparr>c_type = ''CORS_ERROR'',
               c_message = ''CORS policy blocked the request. The gateway may not allow cross-origin requests.'',
               retryable = False\<rparr>
         else if status_truthy e \<or> js_includes msg ''status''
         then \<lparr>c_type = ''HTTP_ERROR'',
               c_message = ''HTTP error: '' @ (if status_truthy e then toString (the (err_status e))
                                              else ''unknown status''),
               retryable = (case err_status e of None \<Rightarrow> False
                            | Some n \<Rightarrow> n \<ge> 500 \<or> n = 429)\<rparr>
         else \<lparr>c_type = ''UNKNOWN_ERROR'',
               c_message = (if err_message e \<noteq> [] then err_message e
                            else if err_name e \<noteq> [] then err_name e else ''Error''),
               retryable = True\<rparr>)"

subsection \<open>fetchFromIPFSGateway\<close>

text \<open>
  What one attempt on one URL gives: \<open>fetch\<close> rejects (the abort of the timeout is the
  rejection named AbortError), or it resolves with a response: its status, its status
  text, and what \<open>response.blob()\<close> gives when the response is ok. The network is a
  function from the URL to the attempt's outcome. The body text of a response that is not
  ok is attached to the error and logged; no decision reads it, and it is left out.
\<close>

datatype attempt =
  FetchThrew js_error
| Response nat string "js_error + bytes"

record gateway_failure =
  f_url :: string
  f_error :: js_error
  f_classification :: classification

definition response_ok :: "nat \<Rightarrow> bool" where
  "response_ok status \<longleftrightarrow> 200 \<le> status \<and> status \<le> 299"

definition httpError :: "nat \<Rightarrow> string \<Rightarrow> js_error" where
  "httpError status statusText =
     \<lparr>err_name = ''Error'',
      err_message = ''HTTP '' @ toString status @ '': '' @ statusText,
      err_status = Some status\<rparr>"

definition failure :: "string \<Rightarrow> js_error \<Rightarrow> gateway_failure" where
  "failure url e = \<lparr>f_url = url, f_error = e, f_classification = classifyError e\<rparr>"

text \<open>
  The loop over the URLs. The result is the list of URLs fetched, in the order of the
  fetches, and either the errors pushed when the loop ended without a payload or the
  payload with its URL.
\<close>

fun tryGateways ::
  "(string \<Rightarrow> attempt) \<Rightarrow> string list \<Rightarrow> gateway_failure list \<Rightarrow> string list \<Rightarrow>
     string list \<times> (gateway_failure list + bytes \<times> string)" where
  "tryGateways net [] errors tried = (tried, Inl errors)"
| "tryGateways net (url # rest) errors tried =
     (case net url of
        FetchThrew err \<Rightarrow> tryGateways net rest (errors @ [failure url err]) (tried @ [url])
      | Response status statusText blobResult \<Rightarrow>
          if \<not> response_ok status then
            (let error = httpError status statusText;
                 errors' = errors @ [failure url error]
             in if \<not> retryable (classifyError error) \<and> status \<ge> 400 \<and> status < 500
                then (tried @ [url], Inl errors')
                else tryGateways net rest errors' (tried @ [url]))
          else (case blobResult of
                  Inr blob \<Rightarrow> (tried @ [url], Inr (blob, url))
                | Inl err \<Rightarrow>
                    tryGateways net rest (errors @ [failure url err]) (tried @ [url])))"

text \<open>
  The error thrown when the loop ends without a payload carries \<open>errors\<close>, \<open>cid\<close> and
  \<open>cause\<close> (the last error), and its message starts with the number of URLs built.
\<close>

datatype gateway_error =
  CidRejected cid_error
| AllGatewaysFailed nat string "gateway_failure list" "js_error option"

definition fetchFromIPFSGateway ::
  "(string \<Rightarrow> string) \<Rightarrow> (string \<Rightarrow> attempt) \<Rightarrow> string \<Rightarrow> string \<Rightarrow>
     string list \<times> (gateway_error + bytes \<times> string)" where
  "fetchFromIPFSGateway enc net cid path =
     (case sanitizeCID cid of
        Inl e \<Rightarrow> ([], Inl (CidRejected e))
      | Inr sanitizedCID \<Rightarrow>
          (let urls = buildGatewayURLs enc sanitizedCID path in
             case tryGateways net urls [] [] of
               (tried, Inr found) \<Rightarrow> (tried, Inr found)
             | (tried, Inl errors) \<Rightarrow>
                 (tried, Inl (AllGatewaysFailed (length urls) sanitizedCID errors
                    (if errors = [] then None else Some (f_error (last errors)))))))"





section \<open>The chunked download: frontend/src/services/chunkedDownload.ts\<close>

text \<open>\<open>validateCID\<close> tests the same expression as the fetcher: \<open>/^[bBQm][a-zA-Z0-9]+$/\<close>.\<close>

definition validateCID :: "string \<Rightarrow> bool" where
  "validateCID cid \<longleftrightarrow> cid_format cid"

text \<open>
  The metadata object, typed as the interfaces \<open>ChunkMetadata\<close> and \<open>FileMetadata\<close> type
  it. What the function tests for absence is optional: the chunks array (missing or not
  an array is \<open>None\<close>) and each entry of it (\<open>None\<close> for a null entry).
\<close>

record ChunkMetadata =
  cm_index :: int
  cm_cid :: string
  cm_size :: int

record FileMetadata =
  md_type :: string
  md_filename :: string
  md_mimeType :: string
  md_fileSize :: int
  md_chunkSize :: int
  md_totalChunks :: int
  md_chunks :: "ChunkMetadata option list option"
  md_uploader :: string
  md_uploadedAt :: int

text \<open>
  What the function takes from the browser: the network, \<open>encodeURIComponent\<close>,
  \<open>JSON.parse\<close> (\<open>None\<close> where it throws), \<open>atob\<close> and \<open>crypto.subtle.importKey\<close>
  (\<open>None\<close> where they throw), and AES-GCM.
\<close>

record 'k download_env =
  dl_net :: "string \<Rightarrow> attempt"
  dl_encodeURIComponent :: "string \<Rightarrow> string"
  dl_parseJson :: "bytes \<Rightarrow> FileMetadata option"
  dl_atob :: "string \<Rightarrow> bytes option"
  dl_importKey :: "bytes \<Rightarrow> 'k option"
  dl_gcm :: "'k aes_gcm"

text \<open>\<open>importKeyFromBase64\<close> of cryptoService.ts.\<close>

definition importKeyFromBase64 :: "'k download_env \<Rightarrow> string \<Rightarrow> 'k option" where
  "importKeyFromBase64 E base64 =
     (if base64 = [] then None
      else case dl_atob E base64 of None \<Rightarrow> None | Some raw \<Rightarrow> dl_importKey E raw)"

text \<open>
  The calls the function makes, in order: the fetch of the metadata, the fetch of the
  chunk at a position, the decryption of the chunk at a position.
\<close>

datatype download_event =
  FetchMetadata string
| FetchChunk nat string
| DecryptChunk nat

datatype download_error =
  InvalidMetadataCid
| InvalidAesKey
| GatewayFailed gateway_error
| InvalidMetadataJson
| InvalidMetadataType
| MissingChunks
| MissingFilename
| KeyImportFailed
| MissingChunkMetadata nat
| ChunkIndexMismatch nat int
| InvalidChunkCid nat string
| DecryptFailed decrypt_error

text \<open>The loop over \<open>metadata.chunks\<close>, from position \<open>i\<close> on.\<close>

fun downloadChunks ::
  "'k download_env \<Rightarrow> 'k \<Rightarrow> nat \<Rightarrow> ChunkMetadata option list \<Rightarrow> bytes list \<Rightarrow>
     download_event list \<Rightarrow> download_event list \<times> (download_error + bytes list)" where
  "downloadChunks E aesKey i [] decryptedChunks tr = (tr, Inr decryptedChunks)"
| "downloadChunks E aesKey i (entry # rest) decryptedChunks tr =
     (case entry of
        None \<Rightarrow> (tr, Inl (MissingChunkMetadata i))
      | Some chunkMeta \<Rightarrow>
          if cm_index chunkMeta \<noteq> int i
          then (tr, Inl (ChunkIndexMismatch i (cm_index chunkMeta)))
          else if cm_cid chunkMeta = [] \<or> \<not> validateCID (cm_cid chunkMeta)
          then (tr, Inl (InvalidChunkCid i (cm_cid chunkMeta)))
          else (case snd (fetchFromIPFSGateway (dl_encodeURIComponent E) (dl_net E)
                            (cm_cid chunkMeta) []) of
                  Inl e \<Rightarrow> (tr @ [FetchChunk i (cm_cid chunkMeta)], Inl (GatewayFailed e))
                | Inr (encrypted, chunkUrl) \<Rightarrow>
                    (case decryptChunk (dl_gcm E) aesKey encrypted i of
                       Inl e \<Rightarrow>
                         (tr @ [FetchChunk i (cm_cid chunkMeta), DecryptChunk i],
                          Inl (DecryptFailed e))
                     | Inr decrypted \<Rightarrow>
                         downloadChunks E aesKey (i + 1) rest (decryptedChunks @ [decrypted])
                           (tr @ [FetchChunk i (cm_cid chunkMeta), DecryptChunk i]))))"

text \<open>
  \<open>chunkedDownloadFile\<close>: the calls made, and the error thrown or the file name with the
  reassembled bytes handed to the browser's download.
\<close>

definition chunkedDownloadFile ::
  "'k download_env \<Rightarrow> string \<Rightarrow> string \<Rightarrow>
     download_event list \<times> (download_error + string \<times> bytes)" where
  "chunkedDownloadFile E metadataCid aesKeyBase64 =
     (if metadataCid = [] \<or> \<not> validateCID metadataCid then ([], Inl InvalidMetadataCid)
      else if aesKeyBase64 = [] then ([], Inl InvalidAesKey)
      else case snd (fetchFromIPFSGateway (dl_encodeURIComponent E) (dl_net E) metadataCid []) of
        Inl e \<Rightarrow> ([FetchMetadata metadataCid], Inl (GatewayFailed e))
      | Inr (metadataBlob, metadataUrl) \<Rightarrow>
          (case dl_parseJson E metadataBlob of
             None \<Rightarrow> ([FetchMetadata metadataCid], Inl InvalidMetadataJson)
           | Some metadata \<Rightarrow>
               if md_type metadata \<noteq> ''dcs-chunked-file''
               then ([FetchMetadata metadataCid], Inl InvalidMetadataType)
               else (case md_chunks metadata of
                  None \<Rightarrow> ([FetchMetadata metadataCid], Inl MissingChunks)
                | Some chunks \<Rightarrow>
                    if length chunks = 0 then ([FetchMetadata metadataCid], Inl MissingChunks)
                    else if md_filename metadata = []
                    then ([FetchMetadata metadataCid], Inl MissingFilename)
                    else (case importKeyFromBase64 E aesKeyBase64 of
                       None \<Rightarrow> ([FetchMetadata metadataCid], Inl KeyImportFailed)
                     | Some aesKey \<Rightarrow>
                         (case downloadChunks E aesKey 0 chunks [] [FetchMetadata metadataCid] of
                            (tr, Inl e) \<Rightarrow> (tr, Inl e)
                          | (tr, Inr decryptedChunks) \<Rightarrow>
                              (tr, Inr (md_filename metadata, concat decryptedChunks)))))))"

text \<open>No chunk at position \<open>n\<close> or later was fetched or decrypted.\<close>

definition chunk_calls_below :: "nat \<Rightarrow> download_event list \<Rightarrow> bool" where
  "chunk_calls_below n tr \<longleftrightarrow>
     list_all (\<lambda>ev. case ev of FetchMetadata c \<Rightarrow> True
                   | FetchChunk j c \<Rightarrow> j < n
                   | DecryptChunk j \<Rightarrow> j < n) tr"

text \<open>An entry the loop rejects at position \<open>i\<close>.\<close>

definition bad_entry :: "nat \<Rightarrow> ChunkMetadata option \<Rightarrow> bool" where
  "bad_entry i entry \<longleftrightarrow> (case entry of None \<Rightarrow> True
     | Some c \<Rightarrow> cm_index c \<noteq> int i \<or> \<not> validateCID (cm_cid c))"

text \<open>
  A download for concrete runs: every gateway serves, under the metadata address, a
  manifest of two chunks (which one is the parameter), and under a chunk address the
  chunk sealed by the stand-in cipher for its index.
\<close>

definition demoMeta :: "ChunkMetadata option list \<Rightarrow> FileMetadata" where
  "demoMeta cs = \<lparr>md_type = ''dcs-chunked-file'', md_filename = ''a.txt'',
     md_mimeType = ''text/plain'', md_fileSize = 4, md_chunkSize = 2, md_totalChunks = 2,
     md_chunks = Some cs, md_uploader = ''0x1'', md_uploadedAt = 0\<rparr>"

definition demoChunk :: "nat \<Rightarrow> bytes" where
  "demoChunk i = fst (encryptChunk toyGcm [9] (replicate 12 1) [of_nat i, of_nat i] i)"

definition demoEnv :: "ChunkMetadata option list \<Rightarrow> bytes download_env" where
  "demoEnv cs = \<lparr>
     dl_net = (\<lambda>url. if url = ''https://Qmmeta.ipfs.nftstorage.link'' then Response 200 ''OK'' (Inr [0])
               else if url = ''https://Qmc0.ipfs.nftstorage.link'' then Response 200 ''OK'' (Inr (demoChunk 0))
               else if url = ''https://Qmc1.ipfs.nftstorage.link'' then Response 200 ''OK'' (Inr (demoChunk 1))
               else Response 404 ''Not Found'' (Inr [])),
     dl_encodeURIComponent = (\<lambda>s. s),
     dl_parseJson = (\<lambda>b. if b = [0] then Some (demoMeta cs) else None),
     dl_atob = (\<lambda>s. Some (string_bytes s)),
     dl_importKey = (\<lambda>raw. Some [9]),
     dl_gcm = toyGcm\<rparr>"

definition goodChunks :: "ChunkMetadata option list" where
  "goodChunks = [Some \<lparr>cm_index = 0, cm_cid = ''Qmc0'', cm_size = 2\<rparr>,
                 Some \<lparr>cm_index = 1, cm_cid = ''Qmc1'', cm_size = 2\<rparr>]"

definition swappedChunks :: "ChunkMetadata option list" where
  "swappedChunks = [Some \<lparr>cm_index = 0, cm_cid = ''Qmc0'', cm_size = 2\<rparr>,
                    Some \<lparr>cm_index = 0, cm_cid = ''Qmc0'', cm_size = 2\<rparr>]"

section \<open>The chunked upload: frontend/src/services/chunkedUpload.ts\<close>

subsection \<open>Session state, options and what the browser answers\<close>

text \<open>
  \<open>UploadState\<close>, the object kept under the session key in IndexedDB. \<open>uploaded\<close> maps a
  chunk index to the content address and size recorded for it.
\<close>

record UploadState =
  us_uploadId :: string
  us_filename :: string
  us_mimeType :: string
  us_fileSize :: nat
  us_chunkSize :: nat
  us_totalChunks :: nat
  us_uploaded :: "nat \<rightharpoonup> string \<times> nat"
  us_encryptedAesForOwner :: "string option"
  us_metadataCid :: "string option"
  us_registeredAt :: "nat option"
  us_onChainTx :: "string option"

record upfile =
  f_name :: string
  f_type :: string
  f_content :: bytes

text \<open>
  The options after their defaults are filled in. An owner address that is not provided is
  the empty string; \<open>o_signer\<close> says whether a signer was passed.
\<close>

record upload_opts =
  o_ownerAddr :: string
  o_signer :: bool
  o_contractAddress :: string
  o_chunkSize :: nat
  o_concurrency :: nat
  o_proxyUrl :: string
  o_autoRegister :: bool

record encrypted_obj =
  eo_version :: string
  eo_ephemPublicKey :: string
  eo_nonce :: string
  eo_ciphertext :: string

record manifest_chunk =
  mc_index :: nat
  mc_cid :: "string option"
  mc_size :: nat

record manifest =
  mf_type :: string
  mf_filename :: string
  mf_mimeType :: string
  mf_fileSize :: nat
  mf_chunkSize :: nat
  mf_totalChunks :: nat
  mf_chunks :: "manifest_chunk list"
  mf_uploader :: string
  mf_uploadedAt :: nat

text \<open>
  What the run takes from outside the repository's code, \<open>None\<close> where the call throws:
  the clock and \<open>Math.random\<close> read by \<open>generateUploadId\<close>; the signer's address; the
  wallet's \<open>eth_decrypt\<close>; key import, generation and export (WebCrypto); the keypair
  derived from the owner's signature; the box of tweetnacl inside \<open>encryptForRecipient\<close>
  (public key, then data); AES-GCM and the nonce drawn for each chunk; the proxy's answer
  to the manifest; the registration transaction (its hash); and the two later readings of
  the clock, in seconds.
\<close>

record 'k upload_env =
  ue_now :: nat
  ue_random :: string
  ue_signerAddress :: "string option"
  ue_hasEthereum :: bool
  ue_ethDecrypt :: "string \<Rightarrow> string \<Rightarrow> string option"
  ue_importKey :: "string \<Rightarrow> 'k option"
  ue_generateKey :: 'k
  ue_exportKey :: "'k \<Rightarrow> string option"
  ue_requestKeypair :: "string \<Rightarrow> string option"
  ue_box :: "string \<Rightarrow> string \<Rightarrow> encrypted_obj option"
  ue_gcm :: "'k aes_gcm"
  ue_iv :: "nat \<Rightarrow> bytes"
  ue_uploadMetadata :: "manifest \<Rightarrow> string option"
  ue_register :: "string \<Rightarrow> string \<Rightarrow> string option"
  ue_uploadedAt :: nat
  ue_registeredAt :: nat

datatype upload_error =
  ProxyUrlMissing
| SignerAddressFailed
| OwnerAddrRequired
| InvalidOwnerAddress
| AutoRegisterNeedsSigner
| MetaMaskRequired
| KeyDecryptFailed
| KeyExportFailed
| SignerRequired
| OwnerEncryptionFailed
| AesKeyNotAvailable
| ChunkUploadFailed nat
| ManifestEntryMissing nat
| MetadataUploadFailed
| RegistrationFailed

subsection \<open>The session key and the key for the owner\<close>

definition generateUploadId :: "string \<Rightarrow> nat \<Rightarrow> string \<Rightarrow> string" where
  "generateUploadId ownerAddr now rnd =
     ''upload_'' @ ownerAddr @ ''_'' @ toString now @ ''_'' @ rnd"

text \<open>
  \<open>Math.ceil(totalSize / chunkSize)\<close>. The chunk size is a positive whole number (2 MB by
  default); for the chunk size zero, where JavaScript's quotient is infinite, the model's
  number of chunks is zero.
\<close>

definition ceilDiv :: "nat \<Rightarrow> nat \<Rightarrow> nat" where
  "ceilDiv totalSize chunkSize = (totalSize + chunkSize - 1) div chunkSize"

definition encryptForRecipient ::
  "'k upload_env \<Rightarrow> string \<Rightarrow> string \<Rightarrow> encrypted_obj option" where
  "encryptForRecipient E recipientPublicKeyBase64 data =
     (if recipientPublicKeyBase64 = [] then None
      else if data = [] then None
      else ue_box E recipientPublicKeyBase64 data)"

text \<open>\<open>JSON.stringify\<close> of the encrypted object, whose four strings need no escape.\<close>

definition stringifyEncrypted :: "encrypted_obj \<Rightarrow> string" where
  "stringifyEncrypted obj =
     ''{'' @ [CHR 0x22] @ ''version'' @ [CHR 0x22] @ '':'' @ [CHR 0x22] @ eo_version obj @ [CHR 0x22] @
     '','' @ [CHR 0x22] @ ''ephemPublicKey'' @ [CHR 0x22] @ '':'' @ [CHR 0x22] @ eo_ephemPublicKey obj @ [CHR 0x22] @
     '','' @ [CHR 0x22] @ ''nonce'' @ [CHR 0x22] @ '':'' @ [CHR 0x22] @ eo_nonce obj @ [CHR 0x22] @
     '','' @ [CHR 0x22] @ ''ciphertext'' @ [CHR 0x22] @ '':'' @ [CHR 0x22] @ eo_ciphertext obj @ [CHR 0x22] @ ''}''"

text \<open>
  What the function holds once the key is ready: the session key, the owner address, the
  in-memory state object, the AES key and its base64 export (both in local variables
  only), the store, and every snapshot \<open>set(sessionKey, state)\<close> has written so far.
\<close>

record 'k session =
  s_sessionKey :: string
  s_ownerAddr :: string
  s_state :: UploadState
  s_aesCryptoKey :: "'k option"
  s_aesKeyBase64 :: "string option"
  s_store :: "string \<rightharpoonup> UploadState"
  s_persisted :: "UploadState list"

definition freshState :: "string \<Rightarrow> upfile \<Rightarrow> nat \<Rightarrow> nat \<Rightarrow> UploadState" where
  "freshState sessionKey file chunkSize totalChunks =
     \<lparr>us_uploadId = sessionKey,
      us_filename = f_name file,
      us_mimeType = (if f_type file \<noteq> [] then f_type file else ''application/octet-stream''),
      us_fileSize = length (f_content file),
      us_chunkSize = chunkSize,
      us_totalChunks = totalChunks,
      us_uploaded = Map.empty,
      us_encryptedAesForOwner = None,
      us_metadataCid = None,
      us_registeredAt = None,
      us_onChainTx = None\<rparr>"

text \<open>
  The owner's encapsulation of a fresh key, inside its \<open>try\<close>: \<open>None\<close> where anything in
  it throws.
\<close>

definition encryptKeyForOwner :: "'k upload_env \<Rightarrow> string \<Rightarrow> string \<Rightarrow> string option" where
  "encryptKeyForOwner E ownerAddr aesKeyBase64 =
     (if \<not> startsWith ownerAddr ''0x'' then None
      else if aesKeyBase64 = [] then None
      else case ue_requestKeypair E ownerAddr of
        None \<Rightarrow> None
      | Some publicKeyBase64 \<Rightarrow>
          if publicKeyBase64 = [] then None
          else (case encryptForRecipient E publicKeyBase64 aesKeyBase64 of
                  None \<Rightarrow> None
                | Some encryptedObj \<Rightarrow>
                    let encryptedStr = stringifyEncrypted encryptedObj in
                    if encryptedStr = [] then None else Some encryptedStr))"

text \<open>
  The function up to the worker pool (lines 249 to 449), in its blocks: the owner address
  (lines 255 to 267), the key of a resumed session (lines 300 to 313), the key of a fresh
  session (lines 314 to 449), and the whole with the checks of the options, the session key
  and the state loaded or created.
\<close>

definition resolveOwnerAddr :: "'k upload_env \<Rightarrow> upload_opts \<Rightarrow> upload_error + string" where
  "resolveOwnerAddr E opts =
     (if o_ownerAddr opts \<noteq> [] then Inr (o_ownerAddr opts)
      else if o_signer opts
      then (case ue_signerAddress E of None \<Rightarrow> Inl SignerAddressFailed | Some a \<Rightarrow> Inr a)
      else Inl OwnerAddrRequired)"

definition resumeKey :: "'k upload_env \<Rightarrow> 'k session \<Rightarrow> upload_error + 'k session" where
  "resumeKey E S =
     (if \<not> ue_hasEthereum E then Inl MetaMaskRequired
      else case ue_ethDecrypt E (the (us_encryptedAesForOwner (s_state S))) (s_ownerAddr S) of
        None \<Rightarrow> Inl KeyDecryptFailed
      | Some decryptedBase64 \<Rightarrow>
          (case ue_importKey E decryptedBase64 of
             None \<Rightarrow> Inl KeyDecryptFailed
           | Some k \<Rightarrow> Inr (S\<lparr>s_aesCryptoKey := Some k,
                               s_aesKeyBase64 := Some decryptedBase64\<rparr>)))"

definition freshKey ::
  "'k upload_env \<Rightarrow> upload_opts \<Rightarrow> 'k session \<Rightarrow> upload_error + 'k session" where
  "freshKey E opts S =
     (let genKey = ue_generateKey E in
      case ue_exportKey E genKey of
        None \<Rightarrow> Inl KeyExportFailed
      | Some aesKeyBase64 \<Rightarrow>
          if aesKeyBase64 = [] then Inl KeyExportFailed
          else
            let S1 = S\<lparr>s_aesCryptoKey := Some genKey, s_aesKeyBase64 := Some aesKeyBase64\<rparr>
            in
            if \<not> o_signer opts
            then (if o_autoRegister opts then Inl SignerRequired else Inr S1)
            else (case encryptKeyForOwner E (s_ownerAddr S) aesKeyBase64 of
                    Some encryptedStr \<Rightarrow>
                      let state' = (s_state S)\<lparr>us_encryptedAesForOwner := Some encryptedStr\<rparr>
                      in Inr (S1\<lparr>s_state := state',
                                 s_store := (s_store S)(s_sessionKey S \<mapsto> state'),
                                 s_persisted := s_persisted S @ [state']\<rparr>)
                  | None \<Rightarrow>
                      if o_autoRegister opts then Inl OwnerEncryptionFailed
                      else Inr S1))"

definition openSession ::
  "'k upload_env \<Rightarrow> (string \<rightharpoonup> UploadState) \<Rightarrow> upfile \<Rightarrow> upload_opts \<Rightarrow>
     upload_error + 'k session" where
  "openSession E store file opts =
     (if o_proxyUrl opts = [] then Inl ProxyUrlMissing
      else case resolveOwnerAddr E opts of
        Inl e \<Rightarrow> Inl e
      | Inr ownerAddr \<Rightarrow>
          if ownerAddr = [] \<or> \<not> startsWith ownerAddr ''0x'' then Inl InvalidOwnerAddress
          else if o_autoRegister opts \<and> (\<not> o_signer opts \<or> o_contractAddress opts = [])
          then Inl AutoRegisterNeedsSigner
          else
            let sessionKey = generateUploadId ownerAddr (ue_now E) (ue_random E);
                totalSize = length (f_content file);
                totalChunks = ceilDiv totalSize (o_chunkSize opts);
                state = (case store sessionKey of
                           Some loaded \<Rightarrow> loaded
                         | None \<Rightarrow> freshState sessionKey file (o_chunkSize opts) totalChunks);
                S = \<lparr>s_sessionKey = sessionKey, s_ownerAddr = ownerAddr, s_state = state,
                     s_aesCryptoKey = None, s_aesKeyBase64 = None,
                     s_store = store, s_persisted = []\<rparr>
            in
            if us_encryptedAesForOwner state \<noteq> None \<and> us_encryptedAesForOwner state \<noteq> Some []
            then resumeKey E S
            else freshKey E opts S)"

subsection \<open>The worker pool\<close>

text \<open>
  JavaScript runs one continuation at a time: a worker runs from one \<open>await\<close> to the
  next without interruption, and between two awaits any other worker may run. A worker is
  described by the await it is suspended at: at the head of its loop, about to claim
  (\<open>Claiming\<close>); inside \<open>processChunk(i)\<close>, awaiting the slice's bytes, the encryption,
  the proxy's answer, \<open>get(sessionKey)\<close> or \<open>set(sessionKey, state)\<close>; or finished, by
  return or by throwing.
\<close>

datatype worker =
  Claiming
| AwaitRead nat
| AwaitEncrypt nat bytes
| AwaitUpload nat bytes
| AwaitGet nat string
| AwaitSet nat string
| Returned
| Threw upload_error

text \<open>
  What the workers share: \<open>nextIndex\<close>, the state object, \<open>results\<close>, \<open>uploadedBytes\<close> and
  the store; with them the log of snapshots written, the log of chunks handed to the proxy
  (index and packed bytes), and the first rejection (what \<open>Promise.all\<close> rejects with).
\<close>

record pool =
  p_nextIndex :: nat
  p_state :: UploadState
  p_results :: "nat \<rightharpoonup> string"
  p_uploadedBytes :: nat
  p_store :: "string \<rightharpoonup> UploadState"
  p_persisted :: "UploadState list"
  p_transmitted :: "(nat \<times> bytes) list"
  p_rejected :: "upload_error option"
  p_workers :: "worker list"

text \<open>
  The inner loop of \<open>worker\<close>: from \<open>nextIndex\<close>, skip the indices recorded in
  \<open>state.uploaded\<close>; the result is the index claimed, if any, and the new \<open>nextIndex\<close>.
\<close>

function claimIndex :: "nat \<Rightarrow> (nat \<rightharpoonup> string \<times> nat) \<Rightarrow> nat \<Rightarrow> nat option \<times> nat" where
  "claimIndex totalChunks up nextIndex =
     (if nextIndex < totalChunks
      then (if up nextIndex = None then (Some nextIndex, nextIndex + 1)
            else claimIndex totalChunks up (nextIndex + 1))
      else (None, nextIndex))"
  by pat_completeness auto
termination
  by (relation "measure (\<lambda>(totalChunks, up, nextIndex). totalChunks - nextIndex)") auto

declare claimIndex.simps [simp del]

definition chunkBytes :: "upfile \<Rightarrow> nat \<Rightarrow> nat \<Rightarrow> bytes" where
  "chunkBytes file chunkSize i =
     (let start = i * chunkSize;
          end' = min (start + chunkSize) (length (f_content file))
      in take (end' - start) (drop start (f_content file)))"

definition setWorker :: "nat \<Rightarrow> worker \<Rightarrow> pool \<Rightarrow> pool" where
  "setWorker w ph c = c\<lparr>p_workers := (p_workers c)[w := ph]\<rparr>"

definition throwFrom :: "nat \<Rightarrow> upload_error \<Rightarrow> pool \<Rightarrow> pool" where
  "throwFrom w e c =
     (setWorker w (Threw e) c)\<lparr>p_rejected := (case p_rejected c of None \<Rightarrow> Some e
                                                | Some e0 \<Rightarrow> Some e0)\<rparr>"

text \<open>
  \<open>uploadChunkWithRetries\<close> and \<open>uploadMetadata\<close>, with their headers and retries, are
  taken by their outcome: the content address the proxy answered, or the throw after the
  last retry. \<open>set(sessionKey, state)\<close> stores the state as it is when \<open>set\<close> is called. The
  \<open>onProgress\<close> callback, absent by default, is left out.

  One step: worker \<open>w\<close> resumes and runs to its next await. \<open>answer\<close> is what the proxy
  answers when the step is the end of \<open>uploadChunkWithRetries\<close> (a content address, or
  \<open>None\<close> when it throws after its retries); other steps do not read it.
\<close>

definition step ::
  "'k upload_env \<Rightarrow> 'k session \<Rightarrow> upfile \<Rightarrow> nat \<Rightarrow> nat \<Rightarrow> nat \<times> string option \<Rightarrow> pool \<Rightarrow> pool" where
  "step E S file chunkSize totalChunks ev c =
     (let w = fst ev; answer = snd ev in
      if \<not> w < length (p_workers c) then c
      else case p_workers c ! w of
        Claiming \<Rightarrow>
          (case claimIndex totalChunks (us_uploaded (p_state c)) (p_nextIndex c) of
             (None, n) \<Rightarrow> setWorker w Returned (c\<lparr>p_nextIndex := n\<rparr>)
           | (Some i, n) \<Rightarrow>
               if \<not> i < totalChunks then setWorker w Returned (c\<lparr>p_nextIndex := n\<rparr>)
               else if us_uploaded (p_state c) i \<noteq> None
               then setWorker w Claiming (c\<lparr>p_nextIndex := n\<rparr>)
               else setWorker w (AwaitRead i) (c\<lparr>p_nextIndex := n\<rparr>))
      | AwaitRead i \<Rightarrow>
          (case s_aesCryptoKey S of
             None \<Rightarrow> throwFrom w AesKeyNotAvailable c
           | Some aesCryptoKey \<Rightarrow>
               setWorker w (AwaitEncrypt i
                 (fst (encryptChunk (ue_gcm E) aesCryptoKey (ue_iv E i)
                         (chunkBytes file chunkSize i) i))) c)
      | AwaitEncrypt i packed \<Rightarrow>
          setWorker w (AwaitUpload i packed)
            (c\<lparr>p_transmitted := p_transmitted c @ [(i, packed)]\<rparr>)
      | AwaitUpload i packed \<Rightarrow>
          (case answer of
             None \<Rightarrow> throwFrom w (ChunkUploadFailed i) c
           | Some cid \<Rightarrow> setWorker w (AwaitGet i cid) c)
      | AwaitGet i cid \<Rightarrow>
          (case (case p_store c (s_sessionKey S) of
                   None \<Rightarrow> None
                 | Some currentState \<Rightarrow> us_uploaded currentState i) of
             Some (otherCid, otherSize) \<Rightarrow>
               setWorker w Claiming (c\<lparr>p_results := (p_results c)(i \<mapsto> otherCid)\<rparr>)
           | None \<Rightarrow>
               let sz = length (chunkBytes file chunkSize i);
                   state' = (p_state c)\<lparr>us_uploaded := (us_uploaded (p_state c))(i \<mapsto> (cid, sz))\<rparr>
               in setWorker w (AwaitSet i cid)
                    (c\<lparr>p_state := state',
                       p_uploadedBytes := p_uploadedBytes c + sz,
                       p_store := (p_store c)(s_sessionKey S \<mapsto> state'),
                       p_persisted := p_persisted c @ [state']\<rparr>))
      | AwaitSet i cid \<Rightarrow>
          setWorker w Claiming (c\<lparr>p_results := (p_results c)(i \<mapsto> cid)\<rparr>)
      | Returned \<Rightarrow> c
      | Threw e \<Rightarrow> c)"

definition initPool :: "'k session \<Rightarrow> nat \<Rightarrow> pool" where
  "initPool S concurrency =
     \<lparr>p_nextIndex = 0,
      p_state = s_state S,
      p_results = (\<lambda>i. map_option fst (us_uploaded (s_state S) i)),
      p_uploadedBytes = 0,
      p_store = s_store S,
      p_persisted = s_persisted S,
      p_transmitted = [],
      p_rejected = None,
      p_workers = replicate concurrency Claiming\<rparr>"

text \<open>
  A schedule is the order in which the event loop resumes the workers, each resumption
  with the answer it finds. The pool's run is the steps of the schedule, one after another.
\<close>

definition runPool ::
  "'k upload_env \<Rightarrow> 'k session \<Rightarrow> upfile \<Rightarrow> nat \<Rightarrow> nat \<Rightarrow> (nat \<times> string option) list \<Rightarrow>
     pool \<Rightarrow> pool" where
  "runPool E S file chunkSize totalChunks sched c =
     foldl (\<lambda>c ev. step E S file chunkSize totalChunks ev c) c sched"

definition allReturned :: "pool \<Rightarrow> bool" where
  "allReturned c \<longleftrightarrow> list_all (\<lambda>ph. ph = Returned) (p_workers c)"

text \<open>The index a worker has claimed and is still processing.\<close>

fun holding :: "worker \<Rightarrow> nat option" where
  "holding (AwaitRead i) = Some i"
| "holding (AwaitEncrypt i packed) = Some i"
| "holding (AwaitUpload i packed) = Some i"
| "holding (AwaitGet i cid) = Some i"
| "holding (AwaitSet i cid) = Some i"
| "holding ph = None"

definition claimed :: "pool \<Rightarrow> nat list" where
  "claimed c = concat (map (\<lambda>ph. case holding ph of None \<Rightarrow> [] | Some i \<Rightarrow> [i]) (p_workers c))"

subsection \<open>The manifest and the registration\<close>

record upload_result =
  ur_metadataCid :: string
  ur_metadata :: manifest
  ur_sessionKey :: string
  ur_txReceipt :: "string option"

text \<open>
  The loop that builds \<open>chunks\<close>: reading \<open>state.uploaded[i].size\<close> of an index that is
  not recorded throws.
\<close>

fun buildChunks ::
  "(nat \<rightharpoonup> string) \<Rightarrow> (nat \<rightharpoonup> string \<times> nat) \<Rightarrow> nat list \<Rightarrow> upload_error + manifest_chunk list" where
  "buildChunks results up [] = Inr []"
| "buildChunks results up (i # rest) =
     (case up i of
        None \<Rightarrow> Inl (ManifestEntryMissing i)
      | Some (cid, sz) \<Rightarrow>
          (case buildChunks results up rest of
             Inl e \<Rightarrow> Inl e
           | Inr chunks \<Rightarrow> Inr (\<lparr>mc_index = i, mc_cid = results i, mc_size = sz\<rparr> # chunks)))"

text \<open>
  A run of the function: the store and the logs it leaves, and its outcome: the error
  thrown, the value returned, or \<open>None\<close> while the pool has not finished.
\<close>

record upload_run =
  r_store :: "string \<rightharpoonup> UploadState"
  r_persisted :: "UploadState list"
  r_transmitted :: "(nat \<times> bytes) list"
  r_outcome :: "(upload_error + upload_result) option"

definition finishUpload ::
  "'k upload_env \<Rightarrow> 'k session \<Rightarrow> upload_opts \<Rightarrow> nat \<Rightarrow> pool \<Rightarrow> upload_run" where
  "finishUpload E S opts totalChunks c =
     (case buildChunks (p_results c) (us_uploaded (p_state c)) [0..<totalChunks] of
        Inl e \<Rightarrow> \<lparr>r_store = p_store c, r_persisted = p_persisted c,
                  r_transmitted = p_transmitted c, r_outcome = Some (Inl e)\<rparr>
      | Inr chunks \<Rightarrow>
          let state = p_state c;
              metadata = \<lparr>mf_type = ''dcs-chunked-file'', mf_filename = us_filename state,
                          mf_mimeType = us_mimeType state, mf_fileSize = us_fileSize state,
                          mf_chunkSize = us_chunkSize state, mf_totalChunks = totalChunks,
                          mf_chunks = chunks, mf_uploader = s_ownerAddr S,
                          mf_uploadedAt = ue_uploadedAt E\<rparr>
          in case ue_uploadMetadata E metadata of
               None \<Rightarrow> \<lparr>r_store = p_store c, r_persisted = p_persisted c,
                         r_transmitted = p_transmitted c,
                         r_outcome = Some (Inl MetadataUploadFailed)\<rparr>
             | Some metadataCid \<Rightarrow>
                 let state1 = state\<lparr>us_metadataCid := Some metadataCid\<rparr>;
                     store1 = (p_store c)(s_sessionKey S \<mapsto> state1);
                     persisted1 = p_persisted c @ [state1]
                 in if o_autoRegister opts \<and> o_signer opts \<and> o_contractAddress opts \<noteq> [] \<and>
                       us_encryptedAesForOwner state1 \<noteq> None \<and>
                       us_encryptedAesForOwner state1 \<noteq> Some []
                    then (case ue_register E metadataCid (the (us_encryptedAesForOwner state1)) of
                            None \<Rightarrow> \<lparr>r_store = store1, r_persisted = persisted1,
                                      r_transmitted = p_transmitted c,
                                      r_outcome = Some (Inl RegistrationFailed)\<rparr>
                          | Some txHash \<Rightarrow>
                              let state2 = state1\<lparr>us_registeredAt := Some (ue_registeredAt E),
                                                  us_onChainTx := Some txHash\<rparr>
                              in \<lparr>r_store = store1(s_sessionKey S \<mapsto> state2),
                                  r_persisted = persisted1 @ [state2],
                                  r_transmitted = p_transmitted c,
                                  r_outcome = Some (Inr \<lparr>ur_metadataCid = metadataCid,
                                    ur_metadata = metadata, ur_sessionKey = s_sessionKey S,
                                    ur_txReceipt = Some txHash\<rparr>)\<rparr>)
                    else \<lparr>r_store = store1, r_persisted = persisted1,
                          r_transmitted = p_transmitted c,
                          r_outcome = Some (Inr \<lparr>ur_metadataCid = metadataCid,
                            ur_metadata = metadata, ur_sessionKey = s_sessionKey S,
                            ur_txReceipt = None\<rparr>)\<rparr>)"

text \<open>
  \<open>chunkedUploadFile\<close> on a store, for a schedule of its pool. When a worker throws,
  \<open>Promise.all\<close> rejects and the function throws, while the other workers run on: the
  store and the logs are those the whole schedule leaves.
\<close>

definition chunkedUploadFile ::
  "'k upload_env \<Rightarrow> (string \<rightharpoonup> UploadState) \<Rightarrow> upfile \<Rightarrow> upload_opts \<Rightarrow>
     (nat \<times> string option) list \<Rightarrow> upload_run" where
  "chunkedUploadFile E store file opts sched =
     (case openSession E store file opts of
        Inl e \<Rightarrow> \<lparr>r_store = store, r_persisted = [], r_transmitted = [],
                  r_outcome = Some (Inl e)\<rparr>
      | Inr S \<Rightarrow>
          let totalChunks = ceilDiv (length (f_content file)) (o_chunkSize opts);
              c = runPool E S file (o_chunkSize opts) totalChunks sched
                    (initPool S (o_concurrency opts))
          in case p_rejected c of
               Some e \<Rightarrow> \<lparr>r_store = p_store c, r_persisted = p_persisted c,
                          r_transmitted = p_transmitted c, r_outcome = Some (Inl e)\<rparr>
             | None \<Rightarrow>
                 if allReturned c then finishUpload E S opts totalChunks c
                 else \<lparr>r_store = p_store c, r_persisted = p_persisted c,
                       r_transmitted = p_transmitted c, r_outcome = None\<rparr>)"

text \<open>The store holds, under the session key, the indices the state holds.\<close>

definition storeAgrees :: "'k session \<Rightarrow> bool" where
  "storeAgrees S \<longleftrightarrow>
     (\<forall>st. s_store S (s_sessionKey S) = Some st \<longrightarrow> us_uploaded st = us_uploaded (s_state S))"

subsection \<open>A concrete upload\<close>

text \<open>
  A file of ten bytes in chunks of two, so five chunks, uploaded by two workers. The first
  run starts at clock 1000 and is interrupted when chunks 0, 1 and 2 are recorded; the
  second run, on the store the first one left, starts at clock 2000.
\<close>

definition demoUploadEnv :: "nat \<Rightarrow> string \<Rightarrow> bytes upload_env" where
  "demoUploadEnv now rnd =
     \<lparr>ue_now = now, ue_random = rnd, ue_signerAddress = Some ''0xabc'',
      ue_hasEthereum = True,
      ue_ethDecrypt = (\<lambda>enc owner. Some ''a2V5''),
      ue_importKey = (\<lambda>b. Some [9]),
      ue_generateKey = [9],
      ue_exportKey = (\<lambda>k. Some ''a2V5''),
      ue_requestKeypair = (\<lambda>a. Some ''cHVi''),
      ue_box = (\<lambda>pub d. Some \<lparr>eo_version = ''x25519-xsalsa20-poly1305'',
                  eo_ephemPublicKey = ''ZXBo'', eo_nonce = ''bm9u'', eo_ciphertext = ''Y3Q=''\<rparr>),
      ue_gcm = toyGcm,
      ue_iv = (\<lambda>i. replicate 12 1),
      ue_uploadMetadata = (\<lambda>m. Some ''Qmmanifest''),
      ue_register = (\<lambda>c e. Some ''0xtx''),
      ue_uploadedAt = 1,
      ue_registeredAt = 2\<rparr>"

definition demoFile :: upfile where
  "demoFile = \<lparr>f_name = ''a.bin'', f_type = [], f_content = [0, 1, 2, 3, 4, 5, 6, 7, 8, 9]\<rparr>"

definition demoOpts :: upload_opts where
  "demoOpts = \<lparr>o_ownerAddr = ''0xabc'', o_signer = True, o_contractAddress = ''0xc'',
     o_chunkSize = 2, o_concurrency = 2, o_proxyUrl = ''https://proxy'', o_autoRegister = False\<rparr>"

text \<open>Six resumptions take a worker through one chunk: claim, read, encrypt, send, get, set.\<close>

definition oneChunk :: "nat \<Rightarrow> string \<Rightarrow> (nat \<times> string option) list" where
  "oneChunk w cid = replicate 6 (w, Some cid)"

fun interleave :: "'a list \<Rightarrow> 'a list \<Rightarrow> 'a list" where
  "interleave [] ys = ys"
| "interleave (x # xs) [] = x # xs"
| "interleave (x # xs) (y # ys) = x # y # interleave xs ys"

definition firstSchedule :: "(nat \<times> string option) list" where
  "firstSchedule = interleave (oneChunk 0 ''Qmc0'') (oneChunk 1 ''Qmc1'') @ oneChunk 0 ''Qmc2''"

definition secondSchedule :: "(nat \<times> string option) list" where
  "secondSchedule =
     interleave (oneChunk 0 ''Qmd0'') (oneChunk 1 ''Qmd1'') @
     interleave (oneChunk 0 ''Qmd2'') (oneChunk 1 ''Qmd3'') @
     oneChunk 1 ''Qmd4'' @ [(1, None), (0, None)]"

definition firstRun :: upload_run where
  "firstRun = chunkedUploadFile (demoUploadEnv 1000 ''k3x'') Map.empty demoFile demoOpts firstSchedule"

definition secondRun :: upload_run where
  "secondRun = chunkedUploadFile (demoUploadEnv 2000 ''p7q'') (r_store firstRun) demoFile demoOpts
                 secondSchedule"

definition recordedIndices :: "(string \<rightharpoonup> UploadState) \<Rightarrow> string \<Rightarrow> nat \<Rightarrow> nat list" where
  "recordedIndices store key n =
     (case store key of None \<Rightarrow> []
      | Some st \<Rightarrow> filter (\<lambda>i. us_uploaded st i \<noteq> None) [0..<n])"

subsection \<open>What every reachable pool satisfies\<close>

text \<open>
  \<open>recordedSet\<close> are the indices recorded in \<open>state.uploaded\<close>, \<open>sentSet\<close> the indices
  handed to the proxy. A worker suspended inside \<open>processChunk(i)\<close> holds an index below
  \<open>nextIndex\<close>; the index is recorded only once the worker awaits \<open>set\<close>, and it has been
  handed to the proxy once the worker awaits the proxy's answer.
\<close>

definition recordedSet :: "pool \<Rightarrow> nat set" where
  "recordedSet c = dom (us_uploaded (p_state c))"

definition sentSet :: "pool \<Rightarrow> nat set" where
  "sentSet c = fst ` set (p_transmitted c)"

definition phase_ok :: "nat set \<Rightarrow> nat \<Rightarrow> nat set \<Rightarrow> worker \<Rightarrow> bool" where
  "phase_ok R n X ph = (case ph of
      AwaitRead i \<Rightarrow> i \<notin> R \<and> i < n \<and> i \<notin> X
    | AwaitEncrypt i p \<Rightarrow> i \<notin> R \<and> i < n \<and> i \<notin> X
    | AwaitUpload i p \<Rightarrow> i \<notin> R \<and> i < n \<and> i \<in> X
    | AwaitGet i cid \<Rightarrow> i \<notin> R \<and> i < n \<and> i \<in> X
    | AwaitSet i cid \<Rightarrow> i \<in> R \<and> i < n \<and> i \<in> X
    | _ \<Rightarrow> True)"

definition exclusive :: "worker list \<Rightarrow> bool" where
  "exclusive ws \<longleftrightarrow>
     (\<forall>a<length ws. \<forall>b<length ws. a \<noteq> b \<longrightarrow> holding (ws ! a) \<noteq> None \<longrightarrow>
        holding (ws ! a) \<noteq> holding (ws ! b))"

definition noneThrew :: "worker list \<Rightarrow> bool" where
  "noneThrew ws \<longleftrightarrow> (\<forall>w<length ws. \<forall>e. ws ! w \<noteq> Threw e)"

definition pool_inv :: "nat set \<Rightarrow> nat \<Rightarrow> string \<Rightarrow> pool \<Rightarrow> bool" where
  "pool_inv S0 T key c \<longleftrightarrow>
     (\<forall>w<length (p_workers c).
        phase_ok (recordedSet c) (p_nextIndex c) (sentSet c) (p_workers c ! w)) \<and>
     exclusive (p_workers c) \<and>
     p_nextIndex c \<le> T \<and>
     (noneThrew (p_workers c) \<longrightarrow>
        (\<forall>i<p_nextIndex c. i \<in> recordedSet c \<or>
           (\<exists>w<length (p_workers c). holding (p_workers c ! w) = Some i))) \<and>
     ((\<exists>w<length (p_workers c). p_workers c ! w = Returned) \<longrightarrow> p_nextIndex c = T) \<and>
     distinct (map fst (p_transmitted c)) \<and>
     sentSet c \<subseteq> {i. i \<notin> S0 \<and> i < p_nextIndex c} \<and>
     recordedSet c \<subseteq> S0 \<union> sentSet c \<and>
     S0 \<subseteq> recordedSet c \<and>
     (\<forall>st. p_store c key = Some st \<longrightarrow> dom (us_uploaded st) \<subseteq> recordedSet c)"

definition demoSession :: "bytes session" where
  "demoSession = projr (openSession (demoUploadEnv 2000 ''p7q'') Map.empty demoFile demoOpts)"

definition demoPool :: pool where
  "demoPool = runPool (demoUploadEnv 2000 ''p7q'') demoSession demoFile 2 5 secondSchedule
                (initPool demoSession 2)"

subsection \<open>The strings of a snapshot\<close>

text \<open>
  Every string a snapshot holds: its id, file name and type, the owner-encrypted key, the
  manifest's address, the transaction hash, and the content addresses of its chunks. Its
  other fields are numbers; no field has the type of a key.
\<close>

definition state_strings :: "UploadState \<Rightarrow> string set" where
  "state_strings st =
     {us_uploadId st, us_filename st, us_mimeType st} \<union>
     set_option (us_encryptedAesForOwner st) \<union> set_option (us_metadataCid st) \<union>
     set_option (us_onChainTx st) \<union>
     {cid. \<exists>i sz. us_uploaded st i = Some (cid, sz)}"

text \<open>
  The strings that come from outside the key: the session key, the file's name and type,
  what the store held under the session key, the proxy's answers (in the schedule, and to
  the manifest), and the hash of the registration.
\<close>

definition outside_strings ::
  "'k upload_env \<Rightarrow> 'k session \<Rightarrow> (string \<rightharpoonup> UploadState) \<Rightarrow> upfile \<Rightarrow>
     (nat \<times> string option) list \<Rightarrow> string set" where
  "outside_strings E S store file sched =
     {s_sessionKey S, f_name file, f_type file, ''application/octet-stream''} \<union>
     (case store (s_sessionKey S) of None \<Rightarrow> {} | Some st \<Rightarrow> state_strings st) \<union>
     {cid. \<exists>w. (w, Some cid) \<in> set sched} \<union>
     {cid. \<exists>m. ue_uploadMetadata E m = Some cid} \<union>
     {tx. \<exists>c e. ue_register E c e = Some tx}"

text \<open>The owner-encrypted key string: what \<open>encryptForRecipient\<close> made of the key.\<close>

definition owner_encrypted :: "'k upload_env \<Rightarrow> 'k session \<Rightarrow> string set" where
  "owner_encrypted E S =
     (case s_aesKeyBase64 S of None \<Rightarrow> {}
      | Some k \<Rightarrow> set_option (encryptKeyForOwner E (s_ownerAddr S) k))"

text \<open>
  For the proofs: the state, the snapshots written and the addresses the workers carry
  hold strings of the set \<open>A\<close> only.
\<close>

definition prov_inv :: "string set \<Rightarrow> pool \<Rightarrow> bool" where
  "prov_inv A c \<longleftrightarrow>
     state_strings (p_state c) \<subseteq> A \<and>
     (\<forall>snap\<in>set (p_persisted c). state_strings snap \<subseteq> A) \<and>
     (\<forall>ph\<in>set (p_workers c). \<forall>i cid. ph = AwaitGet i cid \<longrightarrow> cid \<in> A)"

definition demoRun :: upload_run where
  "demoRun = chunkedUploadFile (demoUploadEnv 2000 ''p7q'') Map.empty demoFile demoOpts secondSchedule"

chapter \<open>Properties\<close>

section \<open>Properties of the access ledger\<close>

lemma toy_cidHash: "cidHash toyHash ''Qmabc'' = 5"
  by (simp add: cidHash_def toyHash_def string_bytes_def)

lemma toy_fileKey: "fileKey toyHash w h = 52"
  by (simp add: fileKey_def toyHash_def be_bytes_def)

lemma afterUpload_eq:
  "afterUpload = deployed\<lparr>uploads := (uploads deployed)(1 := (uploads deployed 1)(5 :=
       \<lparr>fr_cid = ''Qmabc'', fr_encryptedKey = [1], fr_timestamp = 100,
        fr_revoked = False, fr_exists = True\<rparr>))\<rparr>"
  by (simp add: afterUpload_def uploadFile_def ownerTx_def toy_cidHash Let_def deployed_def
      zeroFileRecord_def)

lemma afterGrant_eq:
  "afterGrant = afterUpload\<lparr>access := (access afterUpload)(52 := (access afterUpload 52)(2 :=
       \<lparr>ar_encryptedKeyForGrantee = [7], ar_start = 10, ar_end = 20,
        ar_revoked = False, ar_exists = True\<rparr>))\<rparr>"
  by (simp add: afterGrant_def grantAccess_def ownerTx_def toy_cidHash toy_fileKey Let_def
      afterUpload_eq deployed_def zeroAccessRecord_def)

lemma afterRevoke_eq:
  "afterRevoke = afterUpload\<lparr>access := (access afterUpload)(52 := (access afterUpload 52)(2 :=
       \<lparr>ar_encryptedKeyForGrantee = [7], ar_start = 10, ar_end = 20,
        ar_revoked = True, ar_exists = True\<rparr>))\<rparr>"
  by (simp add: afterRevoke_def revokeAccess_def ownerTx_def toy_cidHash toy_fileKey Let_def
      afterGrant_eq afterUpload_eq deployed_def)

lemma getFile_afterRevoke:
  "fr_exists (getFile toyHash afterRevoke 1 ''Qmabc'')"
  "\<not> fr_revoked (getFile toyHash afterRevoke 1 ''Qmabc'')"
  by (simp_all add: getFile_def toy_cidHash afterRevoke_eq afterUpload_eq deployed_def)

text \<open>
  Claim C3. In every contract state where the owner's file record for \<open>cid\<close> exists and is
  not revoked and the grantee's access record exists and is not revoked,
  \<open>isAccessActive\<close> is true exactly when \<open>start \<le> now < end\<close> of that record; and in every
  state and at every timestamp it is false when the access record's revoked flag is set.
\<close>

theorem isAccessActive_window:
  "(fr_exists (getFile keccak s owner cid) \<and> \<not> fr_revoked (getFile keccak s owner cid) \<and>
    ar_exists (getAccess keccak s owner cid grantee) \<and>
    \<not> ar_revoked (getAccess keccak s owner cid grantee) \<longrightarrow>
      isAccessActive keccak s nowTs owner cid grantee =
        (ar_start (getAccess keccak s owner cid grantee) \<le> nowTs \<and>
         nowTs < ar_end (getAccess keccak s owner cid grantee))) \<and>
   (ar_revoked (getAccess keccak s owner cid grantee) \<longrightarrow>
      \<not> isAccessActive keccak s nowTs owner cid grantee)"
  by (simp add: isAccessActive_def getFile_def getAccess_def Let_def)

theorem isAccessActive_window_witness:
  "fr_exists (getFile toyHash afterGrant 1 ''Qmabc'') \<and>
   \<not> fr_revoked (getFile toyHash afterGrant 1 ''Qmabc'') \<and>
   ar_exists (getAccess toyHash afterGrant 1 ''Qmabc'' 2) \<and>
   \<not> ar_revoked (getAccess toyHash afterGrant 1 ''Qmabc'' 2) \<and>
   \<not> isAccessActive toyHash afterGrant 9 1 ''Qmabc'' 2 \<and>
   isAccessActive toyHash afterGrant 10 1 ''Qmabc'' 2 \<and>
   isAccessActive toyHash afterGrant 19 1 ''Qmabc'' 2 \<and>
   \<not> isAccessActive toyHash afterGrant 20 1 ''Qmabc'' 2 \<and>
   ar_revoked (getAccess toyHash afterRevoke 1 ''Qmabc'' 2) \<and>
   \<not> isAccessActive toyHash afterRevoke 15 1 ''Qmabc'' 2"
  using isAccessActive_window [of toyHash afterGrant 1 "''Qmabc''" 2 9]
    isAccessActive_window [of toyHash afterGrant 1 "''Qmabc''" 2 10]
    isAccessActive_window [of toyHash afterGrant 1 "''Qmabc''" 2 19]
    isAccessActive_window [of toyHash afterGrant 1 "''Qmabc''" 2 20]
    isAccessActive_window [of toyHash afterRevoke 1 "''Qmabc''" 2 15]
  by (simp add: getFile_def getAccess_def toy_cidHash toy_fileKey afterGrant_eq afterRevoke_eq
      afterUpload_eq deployed_def)

text \<open>
  Claim C9, as stated, lets every call with \<open>end > start\<close> on an existing, unrevoked file
  overwrite the access record. The contract has three more guards: a call with the zero
  address as grantee, or with an empty key, reverts and leaves a revoked grant revoked.
\<close>

theorem grantAccess_regrant_counterexample:
  "fr_exists (getFile toyHash afterRevoke (sender ownerTx) ''Qmabc'') \<and>
   \<not> fr_revoked (getFile toyHash afterRevoke (sender ownerTx) ''Qmabc'') \<and>
   (30::uint256) < 40 \<and>
   grantAccess toyHash ownerTx 2 ''Qmabc'' [] 30 40 afterRevoke = Inl ''ENCRYPTED_KEY_REQUIRED'' \<and>
   grantAccess toyHash ownerTx 0 ''Qmabc'' [8] 30 40 afterRevoke = Inl ''INVALID_GRANTEE'' \<and>
   ar_revoked (getAccess toyHash afterRevoke (sender ownerTx) ''Qmabc'' 2)"
  using getFile_afterRevoke
  by (simp add: grantAccess_def ownerTx_def getAccess_def toy_cidHash toy_fileKey afterRevoke_eq)

text \<open>
  Claim C9, amended. In every contract state where the caller's file record for \<open>cid\<close>
  exists and is not revoked, \<open>grantAccess\<close> with a non-zero grantee, a non-empty cid, a
  non-empty key and \<open>end > start\<close> succeeds, leaves the file records as they were, and
  overwrites the access record of (owner, cid, grantee), whatever it held, with the new key
  and window, revoked flag false: the grant is active exactly on its new window, also when
  it had been revoked before.
\<close>

theorem grantAccess_regrant:
  assumes "grantee \<noteq> 0" and "cid \<noteq> []" and "key \<noteq> []" and "start < end'"
    and "fr_exists (getFile keccak s (sender tx) cid)"
    and "\<not> fr_revoked (getFile keccak s (sender tx) cid)"
  shows "\<exists>s'. grantAccess keccak tx grantee cid key start end' s = Inr s' \<and>
           getAccess keccak s' (sender tx) cid grantee =
             \<lparr>ar_encryptedKeyForGrantee = key, ar_start = start, ar_end = end',
              ar_revoked = False, ar_exists = True\<rparr> \<and>
           uploads s' = uploads s \<and>
           (\<forall>nowTs. isAccessActive keccak s' nowTs (sender tx) cid grantee =
              (start \<le> nowTs \<and> nowTs < end'))"
  using assms
  by (simp add: grantAccess_def getFile_def getAccess_def isAccessActive_def Let_def)

theorem grantAccess_regrant_witness:
  "(2::address) \<noteq> 0 \<and> ''Qmabc'' \<noteq> [] \<and> [8::8 word] \<noteq> [] \<and> (30::uint256) < 40 \<and>
   fr_exists (getFile toyHash afterRevoke (sender ownerTx) ''Qmabc'') \<and>
   \<not> fr_revoked (getFile toyHash afterRevoke (sender ownerTx) ''Qmabc'') \<and>
   ar_revoked (getAccess toyHash afterRevoke (sender ownerTx) ''Qmabc'' 2) \<and>
   \<not> isAccessActive toyHash afterRevoke 35 (sender ownerTx) ''Qmabc'' 2 \<and>
   \<not> ar_revoked (getAccess toyHash afterRegrant (sender ownerTx) ''Qmabc'' 2) \<and>
   isAccessActive toyHash afterRegrant 35 (sender ownerTx) ''Qmabc'' 2"
proof -
  have g: "(2::address) \<noteq> 0" and c: "''Qmabc'' \<noteq> []" and k: "[8::8 word] \<noteq> []"
    and w: "(30::uint256) < 40"
    by simp_all
  have f: "fr_exists (getFile toyHash afterRevoke (sender ownerTx) ''Qmabc'')"
    and r: "\<not> fr_revoked (getFile toyHash afterRevoke (sender ownerTx) ''Qmabc'')"
    using getFile_afterRevoke by (simp_all add: ownerTx_def)
  have old: "ar_revoked (getAccess toyHash afterRevoke (sender ownerTx) ''Qmabc'' 2)"
    by (simp add: getAccess_def toy_cidHash toy_fileKey afterRevoke_eq)
  have off: "\<not> isAccessActive toyHash afterRevoke 35 (sender ownerTx) ''Qmabc'' 2"
    using old by (simp add: isAccessActive_def getAccess_def Let_def)
  from grantAccess_regrant [OF g c k w f r]
  obtain s' where s': "grantAccess toyHash ownerTx 2 ''Qmabc'' [8] 30 40 afterRevoke = Inr s'"
    and a: "getAccess toyHash s' (sender ownerTx) ''Qmabc'' 2 =
      \<lparr>ar_encryptedKeyForGrantee = [8], ar_start = 30, ar_end = 40,
       ar_revoked = False, ar_exists = True\<rparr>"
    and act: "\<forall>nowTs. isAccessActive toyHash s' nowTs (sender ownerTx) ''Qmabc'' 2 =
      (30 \<le> nowTs \<and> nowTs < 40)"
    by blast
  have eq: "afterRegrant = s'"
    by (simp add: afterRegrant_def s')
  have on: "isAccessActive toyHash afterRegrant 35 (sender ownerTx) ''Qmabc'' 2"
    using act by (simp add: eq)
  have fresh: "\<not> ar_revoked (getAccess toyHash afterRegrant (sender ownerTx) ''Qmabc'' 2)"
    using a by (simp add: eq)
  show ?thesis
    using g c k w f r old off fresh on by blast
qed

section \<open>Properties of the chunk cipher\<close>

lemma toyGcm_contract: "aes_gcm_contract toyGcm"
  by (simp add: aes_gcm_contract_def toyGcm_def toyTag_def)

text \<open>
  Claim C2. For every key, every plaintext (of any length, so of every length up to the
  chunk size) and every chunk index, decrypting the packed output of \<open>encryptChunk\<close> with
  the same key and index gives the plaintext back. AES-GCM enters through its contract,
  the nonce through its length of 12 bytes.
\<close>

theorem encrypt_decrypt_roundtrip:
  assumes "aes_gcm_contract A" and "length iv = 12"
  shows "decryptChunk A key (fst (encryptChunk A key iv p i)) i = Inr p"
proof -
  let ?ct = "subtle_encrypt A key iv (aad_of_index i) p"
  have len: "length ?ct = length p + 16"
    and inv: "subtle_decrypt A key iv (aad_of_index i) ?ct = Some p"
    using assms(1) by (simp_all add: aes_gcm_contract_def)
  have packed: "fst (encryptChunk A key iv p i) = iv @ ?ct"
    by (simp add: encryptChunk_def Let_def)
  have big: "\<not> length (iv @ ?ct) < 13"
    using len assms(2) by simp
  show ?thesis
    unfolding packed decryptChunk_def using big inv assms(2) by (simp add: Let_def)
qed

theorem encrypt_decrypt_roundtrip_witness:
  "aes_gcm_contract toyGcm \<and> length (replicate 12 (1::8 word)) = 12 \<and>
   decryptChunk toyGcm [9] (fst (encryptChunk toyGcm [9] (replicate 12 1) [1, 2, 3] 7)) 7
     = Inr [1, 2, 3] \<and>
   decryptChunk toyGcm [9] (fst (encryptChunk toyGcm [9] (replicate 12 1) [] 0)) 0 = Inr []"
  using encrypt_decrypt_roundtrip [OF toyGcm_contract, of "replicate 12 1" "[9]" "[1, 2, 3]" 7]
    encrypt_decrypt_roundtrip [OF toyGcm_contract, of "replicate 12 1" "[9]" "[]" 0]
    toyGcm_contract
  by simp

text \<open>
  Claim C7 puts the bound at nonce plus tag, 28 bytes. The code's bound is 13, the nonce
  plus one byte: a packed input of 13 bytes passes the length check and reaches the
  cipher, whose rejection is a different error.
\<close>

theorem decryptChunk_too_small_counterexample:
  "length (replicate 13 (0::8 word)) < 12 + 16 \<and>
   decryptChunk toyGcm [9] (replicate 13 0) 0 = Inl OperationError \<and>
   decryptChunk toyGcm [9] (replicate 13 0) 0 \<noteq> Inl PackedDataTooSmall"
  by (simp add: decryptChunk_def toyGcm_def)

text \<open>
  Claim C7, amended. For every key and index, \<open>decryptChunk\<close> on a packed input shorter
  than 13 bytes fails with "Packed data too small" whatever the cipher is, so before any
  decryption; a packed input of 13 bytes or more is split into its first 12 bytes and the
  rest and handed to the cipher, whose answer is the result.
\<close>

theorem decryptChunk_too_small:
  "(length packed < 13 \<longrightarrow> (\<forall>A. decryptChunk A key packed i = Inl PackedDataTooSmall)) \<and>
   (13 \<le> length packed \<longrightarrow>
      decryptChunk A key packed i =
        (case subtle_decrypt A key (take 12 packed) (aad_of_index i) (drop 12 packed) of
           None \<Rightarrow> Inl OperationError | Some plain \<Rightarrow> Inr plain))"
  by (simp add: decryptChunk_def Let_def)

theorem decryptChunk_too_small_witness:
  "length (replicate 12 (0::8 word)) < 13 \<and>
   decryptChunk toyGcm [9] (replicate 12 0) 5 = Inl PackedDataTooSmall \<and>
   13 \<le> length (replicate 27 (0::8 word)) \<and>
   decryptChunk toyGcm [9] (replicate 27 0) 5 = Inl OperationError"
  using decryptChunk_too_small [of "replicate 12 0" "[9]" 5 toyGcm]
    decryptChunk_too_small [of "replicate 27 0" "[9]" 5 toyGcm]
  by (simp add: toyGcm_def toyTag_def)

lemma digit_value_digit_char: "d < 10 \<Longrightarrow> digit_value (digit_char d) = d"
  by (simp add: digit_value_def digit_char_def)

lemma fromDigits_snoc: "fromDigits (s @ [c]) = 10 * fromDigits s + digit_value c"
  by (simp add: fromDigits_def)

lemma fromDigits_toString: "fromDigits (toString n) = n"
proof (induction n rule: toString.induct)
  case (1 n)
  show ?case
  proof (cases "n < 10")
    case True
    then have "toString n = [digit_char n]" by (subst toString.simps) simp
    with True show ?thesis
      by (simp add: fromDigits_def digit_value_digit_char)
  next
    case False
    with "1.IH" have "fromDigits (toString (n div 10)) = n div 10" by simp
    moreover from False have "toString n = toString (n div 10) @ [digit_char (n mod 10)]"
      by (subst toString.simps) simp
    ultimately show ?thesis
      by (simp add: fromDigits_snoc digit_value_digit_char)
  qed
qed

lemma toString_inj:
  assumes "toString m = toString n"
  shows "m = n"
proof -
  have "m = fromDigits (toString m)" by (simp only: fromDigits_toString)
  also have "\<dots> = fromDigits (toString n)" by (simp only: assms)
  also have "\<dots> = n" by (simp only: fromDigits_toString)
  finally show ?thesis .
qed

lemma unat_byte_of_char: "unat (of_nat (of_char c) :: 8 word) = of_char c"
proof -
  have "unat (of_nat (of_char c) :: 8 word) = of_char c mod 2 ^ LENGTH(8)"
    by (rule unat_of_nat)
  also have "\<dots> = of_char c mod 256" by simp
  also have "\<dots> = of_char c" by (rule of_char_mod_256)
  finally show ?thesis .
qed

lemma byte_of_char_inj:
  assumes "(of_nat (of_char c) :: 8 word) = of_nat (of_char d)"
  shows "c = d"
proof -
  have "(of_char c :: nat) = unat (of_nat (of_char c) :: 8 word)"
    by (simp only: unat_byte_of_char)
  also have "\<dots> = unat (of_nat (of_char d) :: 8 word)" by (simp only: assms)
  also have "\<dots> = of_char d" by (simp only: unat_byte_of_char)
  finally show ?thesis by simp
qed

lemma string_bytes_inj:
  assumes "string_bytes s = string_bytes t"
  shows "s = t"
proof -
  have "inj (\<lambda>c. of_nat (of_char c) :: 8 word)"
    by (rule injI) (rule byte_of_char_inj)
  with assms show ?thesis
    unfolding string_bytes_def by (rule map_injective)
qed

text \<open>
  The associated data binds the position: two chunk indices give the same associated data
  only when they are the same index. (That AES-GCM then rejects a chunk presented under
  another index, or with a bit flipped, is the cipher's guarantee, which holds up to the
  chance of a forgery; it is not a property of this code.)
\<close>

theorem aad_of_index_injective: "aad_of_index i = aad_of_index j \<longleftrightarrow> i = j"
  unfolding aad_of_index_def using string_bytes_inj toString_inj by blast

section \<open>Properties of the gateway fetcher\<close>

lemma failure_sel [simp]:
  "f_url (failure url e) = url" "f_error (failure url e) = e"
  "f_classification (failure url e) = classifyError e"
  by (simp_all add: failure_def)
















section \<open>Properties of the chunked download\<close>

lemma validateCID_nonempty: "validateCID c \<Longrightarrow> c \<noteq> []"
  by (auto simp: validateCID_def cid_format_def)

lemma chunk_calls_below_append [simp]:
  "chunk_calls_below n (xs @ ys) \<longleftrightarrow> chunk_calls_below n xs \<and> chunk_calls_below n ys"
  by (simp add: chunk_calls_below_def)

lemma chunk_calls_below_mono: "chunk_calls_below n tr \<Longrightarrow> n \<le> m \<Longrightarrow> chunk_calls_below m tr"
  unfolding chunk_calls_below_def list_all_iff by (auto split: download_event.splits)

lemma downloadChunks_rejects:
  "downloadChunks E k i0 cs acc tr = (tr', res) \<Longrightarrow> i < length cs \<Longrightarrow>
   bad_entry (i0 + i) (cs ! i) \<Longrightarrow> chunk_calls_below (i0 + i) tr \<Longrightarrow>
     isl res \<and> chunk_calls_below (i0 + i) tr'"
proof (induction cs arbitrary: i0 i acc tr)
  case Nil
  then show ?case by simp
next
  case (Cons entry rest)
  show ?case
  proof (cases i)
    case 0
    with Cons.prems show ?thesis
      by (auto simp: bad_entry_def validateCID_nonempty split: option.splits if_splits)
  next
    case (Suc j)
    have below: "chunk_calls_below (Suc i0 + j) (tr @ [FetchChunk i0 c, DecryptChunk i0])" for c
      using Cons.prems(4) Suc by (simp add: chunk_calls_below_def)
    have below1: "chunk_calls_below (i0 + i) (tr @ [FetchChunk i0 c])" for c
      using Cons.prems(4) Suc by (simp add: chunk_calls_below_def)
    have below2: "chunk_calls_below (i0 + i) (tr @ [FetchChunk i0 c, DecryptChunk i0])" for c
      using Cons.prems(4) Suc by (simp add: chunk_calls_below_def)
    have bad: "bad_entry (Suc i0 + j) (rest ! j)" and len: "j < length rest"
      using Cons.prems(2,3) Suc by simp_all
    note IH = Cons.IH [OF _ len bad below]
    show ?thesis
      using Cons.prems(1,4) IH below1 below2 Suc
      by (auto split: option.splits if_splits sum.splits prod.splits)
  qed
qed


text \<open>
  Claim C10. For every metadata object fetched and parsed, \<open>chunkedDownloadFile\<close> throws
  with no chunk fetched or decrypted when the type is not "dcs-chunked-file" or the chunks
  array is missing or empty; and when the entry at position \<open>i\<close> has an index other than
  \<open>i\<close> or a CID that fails the format check, it throws with no chunk at position \<open>i\<close> or
  later fetched or decrypted. A manifest with reordered or renumbered entries is never
  reassembled.
\<close>

theorem chunkedDownloadFile_rejects:
  assumes "validateCID metadataCid" and "aesKeyBase64 \<noteq> []"
    and "snd (fetchFromIPFSGateway (dl_encodeURIComponent E) (dl_net E) metadataCid []) =
           Inr (blob, url)"
    and "dl_parseJson E blob = Some metadata"
  shows "(md_type metadata \<noteq> ''dcs-chunked-file'' \<longrightarrow>
            chunkedDownloadFile E metadataCid aesKeyBase64 =
              ([FetchMetadata metadataCid], Inl InvalidMetadataType)) \<and>
         (md_chunks metadata = None \<or> md_chunks metadata = Some [] \<longrightarrow>
            fst (chunkedDownloadFile E metadataCid aesKeyBase64) = [FetchMetadata metadataCid] \<and>
            snd (chunkedDownloadFile E metadataCid aesKeyBase64)
              \<in> {Inl InvalidMetadataType, Inl MissingChunks}) \<and>
         (\<forall>chunks i c. md_chunks metadata = Some chunks \<and> i < length chunks \<and>
            chunks ! i = Some c \<and> (cm_index c \<noteq> int i \<or> \<not> validateCID (cm_cid c)) \<longrightarrow>
            isl (snd (chunkedDownloadFile E metadataCid aesKeyBase64)) \<and>
            chunk_calls_below i (fst (chunkedDownloadFile E metadataCid aesKeyBase64)))"
proof (intro conjI allI impI)
  assume "md_type metadata \<noteq> ''dcs-chunked-file''"
  then show "chunkedDownloadFile E metadataCid aesKeyBase64 =
      ([FetchMetadata metadataCid], Inl InvalidMetadataType)"
    using assms validateCID_nonempty [OF assms(1)] by (simp add: chunkedDownloadFile_def)
next
  assume "md_chunks metadata = None \<or> md_chunks metadata = Some []"
  then show "fst (chunkedDownloadFile E metadataCid aesKeyBase64) = [FetchMetadata metadataCid]"
    using assms validateCID_nonempty [OF assms(1)] by (auto simp: chunkedDownloadFile_def)
next
  assume "md_chunks metadata = None \<or> md_chunks metadata = Some []"
  then show "snd (chunkedDownloadFile E metadataCid aesKeyBase64)
      \<in> {Inl InvalidMetadataType, Inl MissingChunks}"
    using assms validateCID_nonempty [OF assms(1)] by (auto simp: chunkedDownloadFile_def)
next
  fix chunks i c
  assume a: "md_chunks metadata = Some chunks \<and> i < length chunks \<and>
            chunks ! i = Some c \<and> (cm_index c \<noteq> int i \<or> \<not> validateCID (cm_cid c))"
  then have bad: "bad_entry (0 + i) (chunks ! i)" and len: "i < length chunks"
    by (auto simp: bad_entry_def)
  have start: "chunk_calls_below (0 + i) [FetchMetadata metadataCid]"
    by (simp add: chunk_calls_below_def)
  have loop: "isl res \<and> chunk_calls_below i tr'"
    if "downloadChunks E k 0 chunks [] [FetchMetadata metadataCid] = (tr', res)" for k tr' res
    using downloadChunks_rejects [OF that len bad start] by simp
  have both: "isl (snd (chunkedDownloadFile E metadataCid aesKeyBase64)) \<and>
        chunk_calls_below i (fst (chunkedDownloadFile E metadataCid aesKeyBase64))"
    using assms validateCID_nonempty [OF assms(1)] a start
    by (auto simp: chunkedDownloadFile_def split: option.splits prod.splits sum.splits dest: loop)
  from both show "isl (snd (chunkedDownloadFile E metadataCid aesKeyBase64))" by simp
  from both show "chunk_calls_below i (fst (chunkedDownloadFile E metadataCid aesKeyBase64))"
    by simp
qed

lemma demo_meta_fetch:
  "snd (fetchFromIPFSGateway (dl_encodeURIComponent (demoEnv cs)) (dl_net (demoEnv cs)) ''Qmmeta'' [])
     = Inr ([0], ''https://Qmmeta.ipfs.nftstorage.link'')"
  unfolding demoEnv_def download_env.simps by code_simp

lemma demo_meta_cid: "validateCID ''Qmmeta''"
  by code_simp

lemma demo_download_ok:
  "chunkedDownloadFile (demoEnv goodChunks) ''Qmmeta'' ''a2V5'' =
     ([FetchMetadata ''Qmmeta'', FetchChunk 0 ''Qmc0'', DecryptChunk 0,
       FetchChunk 1 ''Qmc1'', DecryptChunk 1], Inr (''a.txt'', [0, 0, 1, 1]))"
  by code_simp

theorem chunkedDownloadFile_rejects_witness:
  "validateCID ''Qmmeta'' \<and> ''a2V5'' \<noteq> [] \<and>
   snd (fetchFromIPFSGateway (dl_encodeURIComponent (demoEnv swappedChunks))
          (dl_net (demoEnv swappedChunks)) ''Qmmeta'' [])
     = Inr ([0], ''https://Qmmeta.ipfs.nftstorage.link'') \<and>
   dl_parseJson (demoEnv swappedChunks) [0] = Some (demoMeta swappedChunks) \<and>
   md_chunks (demoMeta swappedChunks) = Some swappedChunks \<and>
   swappedChunks ! 1 = Some \<lparr>cm_index = 0, cm_cid = ''Qmc0'', cm_size = 2\<rparr> \<and>
   isl (snd (chunkedDownloadFile (demoEnv swappedChunks) ''Qmmeta'' ''a2V5'')) \<and>
   chunk_calls_below 1 (fst (chunkedDownloadFile (demoEnv swappedChunks) ''Qmmeta'' ''a2V5''))"
proof -
  have k: "''a2V5'' \<noteq> []" by simp
  have p: "dl_parseJson (demoEnv swappedChunks) [0] = Some (demoMeta swappedChunks)"
    by (simp add: demoEnv_def)
  have c: "md_chunks (demoMeta swappedChunks) = Some swappedChunks"
    by (simp add: demoMeta_def)
  have e: "swappedChunks ! 1 = Some \<lparr>cm_index = 0, cm_cid = ''Qmc0'', cm_size = 2\<rparr>"
    and l: "1 < length swappedChunks"
    by (simp_all add: swappedChunks_def)
  have bad: "cm_index \<lparr>cm_index = 0, cm_cid = ''Qmc0'', cm_size = 2\<rparr> \<noteq> int 1"
    by simp
  from chunkedDownloadFile_rejects [OF demo_meta_cid k demo_meta_fetch p]
  have "isl (snd (chunkedDownloadFile (demoEnv swappedChunks) ''Qmmeta'' ''a2V5'')) \<and>
        chunk_calls_below 1 (fst (chunkedDownloadFile (demoEnv swappedChunks) ''Qmmeta'' ''a2V5''))"
    using c e l bad by blast
  then show ?thesis
    using demo_meta_cid k demo_meta_fetch [of swappedChunks] p c e by simp
qed

section \<open>Properties of the worker pool\<close>

lemma claimIndex_spec:
  "n \<le> T \<Longrightarrow> claimIndex T up n = (r, n') \<Longrightarrow>
     (case r of
        None \<Rightarrow> n' = T \<and> (\<forall>j. n \<le> j \<and> j < T \<longrightarrow> up j \<noteq> None)
      | Some i \<Rightarrow> n' = i + 1 \<and> n \<le> i \<and> i < T \<and> up i = None \<and>
                  (\<forall>j. n \<le> j \<and> j < i \<longrightarrow> up j \<noteq> None))"
proof (induction T up n rule: claimIndex.induct)
  case (1 T up n)
  have unf: "claimIndex T up n =
     (if n < T then (if up n = None then (Some n, n + 1) else claimIndex T up (n + 1))
      else (None, n))"
    by (rule claimIndex.simps)
  show ?case
  proof (cases "n < T")
    case False
    with "1.prems" unf have "r = None" "n' = n" "n = T" by simp_all
    then show ?thesis by auto
  next
    case True
    show ?thesis
    proof (cases "up n = None")
      case free: True
      with True "1.prems" unf have "r = Some n" "n' = n + 1" by simp_all
      with True free show ?thesis by auto
    next
      case taken: False
      with True "1.prems" unf have rec: "claimIndex T up (n + 1) = (r, n')"
        by simp
      have le: "n + 1 \<le> T" using True by simp
      note IH = "1.IH" [OF True taken le rec]
      show ?thesis
      proof (cases r)
        case None
        with IH have a: "n' = T" and b: "\<forall>j. n + 1 \<le> j \<and> j < T \<longrightarrow> up j \<noteq> None" by simp_all
        have "\<forall>j. n \<le> j \<and> j < T \<longrightarrow> up j \<noteq> None"
        proof (intro allI impI)
          fix j assume "n \<le> j \<and> j < T"
          then show "up j \<noteq> None" using b taken by (cases "j = n") auto
        qed
        with a None show ?thesis by simp
      next
        case (Some i)
        with IH have a: "n' = i + 1" "n + 1 \<le> i" "i < T" "up i = None"
          and b: "\<forall>j. n + 1 \<le> j \<and> j < i \<longrightarrow> up j \<noteq> None" by simp_all
        have "\<forall>j. n \<le> j \<and> j < i \<longrightarrow> up j \<noteq> None"
        proof (intro allI impI)
          fix j assume "n \<le> j \<and> j < i"
          then show "up j \<noteq> None" using b taken by (cases "j = n") auto
        qed
        with a Some show ?thesis by simp
      qed
    qed
  qed
qed


lemma setWorker_simps [simp]:
  "p_workers (setWorker w ph c) = (p_workers c)[w := ph]"
  "p_nextIndex (setWorker w ph c) = p_nextIndex c"
  "p_state (setWorker w ph c) = p_state c"
  "p_results (setWorker w ph c) = p_results c"
  "p_uploadedBytes (setWorker w ph c) = p_uploadedBytes c"
  "p_store (setWorker w ph c) = p_store c"
  "p_persisted (setWorker w ph c) = p_persisted c"
  "p_transmitted (setWorker w ph c) = p_transmitted c"
  "p_rejected (setWorker w ph c) = p_rejected c"
  by (simp_all add: setWorker_def)

lemma throwFrom_simps [simp]:
  "p_workers (throwFrom w e c) = (p_workers c)[w := Threw e]"
  "p_nextIndex (throwFrom w e c) = p_nextIndex c"
  "p_state (throwFrom w e c) = p_state c"
  "p_results (throwFrom w e c) = p_results c"
  "p_uploadedBytes (throwFrom w e c) = p_uploadedBytes c"
  "p_store (throwFrom w e c) = p_store c"
  "p_persisted (throwFrom w e c) = p_persisted c"
  "p_transmitted (throwFrom w e c) = p_transmitted c"
  by (simp_all add: throwFrom_def)


text \<open>A worker changes phase, keeping its index or letting go of a recorded one,
  while nextIndex, the recorded set and the sent set stay.\<close>

lemma pool_invD:
  assumes "pool_inv S0 T key c"
  shows "\<forall>w<length (p_workers c). phase_ok (recordedSet c) (p_nextIndex c) (sentSet c) (p_workers c ! w)"
    and "exclusive (p_workers c)" and "p_nextIndex c \<le> T"
    and "noneThrew (p_workers c) \<longrightarrow> (\<forall>i<p_nextIndex c. i \<in> recordedSet c \<or>
           (\<exists>w<length (p_workers c). holding (p_workers c ! w) = Some i))"
    and "(\<exists>w<length (p_workers c). p_workers c ! w = Returned) \<longrightarrow> p_nextIndex c = T"
    and "distinct (map fst (p_transmitted c))"
    and "sentSet c \<subseteq> {i. i \<notin> S0 \<and> i < p_nextIndex c}"
    and "recordedSet c \<subseteq> S0 \<union> sentSet c" and "S0 \<subseteq> recordedSet c"
    and "\<forall>st. p_store c key = Some st \<longrightarrow> dom (us_uploaded st) \<subseteq> recordedSet c"
  using assms unfolding pool_inv_def by simp_all

lemma pool_invI:
  assumes "\<forall>w<length (p_workers c). phase_ok (recordedSet c) (p_nextIndex c) (sentSet c) (p_workers c ! w)"
    and "exclusive (p_workers c)" and "p_nextIndex c \<le> T"
    and "noneThrew (p_workers c) \<longrightarrow> (\<forall>i<p_nextIndex c. i \<in> recordedSet c \<or>
           (\<exists>w<length (p_workers c). holding (p_workers c ! w) = Some i))"
    and "(\<exists>w<length (p_workers c). p_workers c ! w = Returned) \<longrightarrow> p_nextIndex c = T"
    and "distinct (map fst (p_transmitted c))"
    and "sentSet c \<subseteq> {i. i \<notin> S0 \<and> i < p_nextIndex c}"
    and "recordedSet c \<subseteq> S0 \<union> sentSet c" and "S0 \<subseteq> recordedSet c"
    and "\<forall>st. p_store c key = Some st \<longrightarrow> dom (us_uploaded st) \<subseteq> recordedSet c"
  shows "pool_inv S0 T key c"
  using assms unfolding pool_inv_def by simp

text \<open>Exclusiveness survives a worker keeping its index or letting go of it.\<close>

lemma exclusive_update:
  assumes ex: "exclusive ws" and w: "w < length ws"
    and keep: "holding ph' = holding (ws ! w) \<or> holding ph' = None"
  shows "exclusive (ws[w := ph'])"
  unfolding exclusive_def
proof (intro allI impI)
  fix a b assume a: "a < length (ws[w := ph'])" and b: "b < length (ws[w := ph'])"
    and ab: "a \<noteq> b" and h: "holding (ws[w := ph'] ! a) \<noteq> None"
  have ha: "holding (ws[w := ph'] ! a) = holding (ws ! a)"
    using keep h a by (cases "a = w") auto
  have hb: "holding (ws[w := ph'] ! b) = holding (ws ! b) \<or> holding (ws[w := ph'] ! b) = None"
    using keep b by (cases "b = w") auto
  from ex a b ab h ha have "holding (ws ! a) \<noteq> holding (ws ! b)"
    unfolding exclusive_def by simp
  with ha hb h show "holding (ws[w := ph'] ! a) \<noteq> holding (ws[w := ph'] ! b)"
    by auto
qed

text \<open>Exclusiveness survives a worker taking an index that nobody holds.\<close>

lemma exclusive_take:
  assumes ex: "exclusive ws" and w: "w < length ws"
    and free: "\<forall>v<length ws. holding (ws ! v) \<noteq> holding ph'"
  shows "exclusive (ws[w := ph'])"
  unfolding exclusive_def
proof (intro allI impI)
  fix a b assume a: "a < length (ws[w := ph'])" and b: "b < length (ws[w := ph'])"
    and ab: "a \<noteq> b" and h: "holding (ws[w := ph'] ! a) \<noteq> None"
  show "holding (ws[w := ph'] ! a) \<noteq> holding (ws[w := ph'] ! b)"
  proof (cases "a = w")
    case True
    with ab b have "ws[w := ph'] ! b = ws ! b" by simp
    moreover have "ws[w := ph'] ! a = ph'" using True a by simp
    ultimately show ?thesis using free b by (metis length_list_update)
  next
    case False
    then have ea: "ws[w := ph'] ! a = ws ! a" by simp
    show ?thesis
    proof (cases "b = w")
      case True
      then have "ws[w := ph'] ! b = ph'" using b by simp
      with ea free a show ?thesis by (metis length_list_update)
    next
      case nb: False
      then have "ws[w := ph'] ! b = ws ! b" by simp
      with ea ex a b ab h show ?thesis unfolding exclusive_def by simp
    qed
  qed
qed

lemma noneThrew_before:
  assumes nt: "noneThrew (ws[w := ph'])" and alive: "\<forall>e. ws ! w \<noteq> Threw e"
  shows "noneThrew ws"
  unfolding noneThrew_def
proof (intro allI impI)
  fix v e assume v: "v < length ws"
  show "ws ! v \<noteq> Threw e"
  proof (cases "v = w")
    case True
    with alive show ?thesis by simp
  next
    case False
    with nt v show ?thesis unfolding noneThrew_def by (auto simp: nth_list_update)
  qed
qed

lemma pool_inv_rephase:
  assumes inv: "pool_inv S0 T key c" and w: "w < length (p_workers c)"
    and alive: "\<forall>e. p_workers c ! w \<noteq> Threw e"
    and ws: "p_workers c' = (p_workers c)[w := ph']"
    and same: "p_nextIndex c' = p_nextIndex c" "recordedSet c' = recordedSet c"
      "sentSet c' = sentSet c" "p_transmitted c' = p_transmitted c"
    and store: "p_store c' key = p_store c key"
    and ok: "phase_ok (recordedSet c) (p_nextIndex c) (sentSet c) ph'"
    and keep: "holding ph' = holding (p_workers c ! w) \<or>
       (holding ph' = None \<and> ((\<exists>e. ph' = Threw e) \<or>
          (\<forall>i. holding (p_workers c ! w) = Some i \<longrightarrow> i \<in> recordedSet c)))"
    and ret: "ph' = Returned \<longrightarrow> p_nextIndex c = T"
  shows "pool_inv S0 T key c'"
proof (rule pool_invI)
  let ?ws = "p_workers c"
  note D = pool_invD [OF inv]
  show "\<forall>v<length (p_workers c'). phase_ok (recordedSet c') (p_nextIndex c') (sentSet c') (p_workers c' ! v)"
    using D(1) ok w by (simp add: ws same nth_list_update)
  show "exclusive (p_workers c')"
    unfolding ws using exclusive_update [OF D(2) w] keep by blast
  show "p_nextIndex c' \<le> T" using D(3) same by simp
  show "noneThrew (p_workers c') \<longrightarrow> (\<forall>i<p_nextIndex c'. i \<in> recordedSet c' \<or>
           (\<exists>v<length (p_workers c'). holding (p_workers c' ! v) = Some i))"
  proof (intro impI allI)
    fix i assume nt: "noneThrew (p_workers c')" and i: "i < p_nextIndex c'"
    have nt0: "noneThrew ?ws"
      using noneThrew_before nt alive unfolding ws by blast
    have notthrew: "\<forall>e. ph' \<noteq> Threw e"
      using nt w unfolding noneThrew_def ws by auto
    from D(4) nt0 i same have "i \<in> recordedSet c \<or> (\<exists>v<length ?ws. holding (?ws ! v) = Some i)"
      by simp
    then show "i \<in> recordedSet c' \<or> (\<exists>v<length (p_workers c'). holding (p_workers c' ! v) = Some i)"
    proof
      assume "i \<in> recordedSet c"
      then show ?thesis by (simp add: same)
    next
      assume "\<exists>v<length ?ws. holding (?ws ! v) = Some i"
      then obtain v where v: "v < length ?ws" "holding (?ws ! v) = Some i" by blast
      show ?thesis
      proof (cases "v = w")
        case False
        then have "holding (p_workers c' ! v) = Some i" using v by (simp add: ws)
        with v show ?thesis by (auto simp: ws)
      next
        case True
        from keep show ?thesis
        proof
          assume "holding ph' = holding (?ws ! w)"
          then have "holding (p_workers c' ! w) = Some i" using v True w by (simp add: ws)
          with w show ?thesis by (auto simp: ws)
        next
          assume "holding ph' = None \<and> ((\<exists>e. ph' = Threw e) \<or>
            (\<forall>i. holding (?ws ! w) = Some i \<longrightarrow> i \<in> recordedSet c))"
          with notthrew v True have "i \<in> recordedSet c" by auto
          then show ?thesis by (simp add: same)
        qed
      qed
    qed
  qed
  show "(\<exists>v<length (p_workers c'). p_workers c' ! v = Returned) \<longrightarrow> p_nextIndex c' = T"
  proof
    assume "\<exists>v<length (p_workers c'). p_workers c' ! v = Returned"
    then obtain v where v: "v < length ?ws" "?ws[w := ph'] ! v = Returned" by (auto simp: ws)
    show "p_nextIndex c' = T"
    proof (cases "v = w")
      case True
      with v have "ph' = Returned" by simp
      with ret same show ?thesis by simp
    next
      case False
      with v have "?ws ! v = Returned" by simp
      with D(5) v same show ?thesis by auto
    qed
  qed
  show "distinct (map fst (p_transmitted c'))" using D(6) same by simp
  show "sentSet c' \<subseteq> {i. i \<notin> S0 \<and> i < p_nextIndex c'}" using D(7) same by simp
  show "recordedSet c' \<subseteq> S0 \<union> sentSet c'" using D(8) same by simp
  show "S0 \<subseteq> recordedSet c'" using D(9) same by simp
  show "\<forall>st. p_store c' key = Some st \<longrightarrow> dom (us_uploaded st) \<subseteq> recordedSet c'"
    using D(10) same store by simp
qed


lemma recordedSet_simps [simp]:
  "recordedSet (setWorker w ph c) = recordedSet c"
  "recordedSet (throwFrom w e c) = recordedSet c"
  "recordedSet (c\<lparr>p_nextIndex := n\<rparr>) = recordedSet c"
  "recordedSet (c\<lparr>p_transmitted := t\<rparr>) = recordedSet c"
  "recordedSet (c\<lparr>p_results := r\<rparr>) = recordedSet c"
  by (simp_all add: recordedSet_def)

lemma sentSet_simps [simp]:
  "sentSet (setWorker w ph c) = sentSet c"
  "sentSet (throwFrom w e c) = sentSet c"
  "sentSet (c\<lparr>p_nextIndex := n\<rparr>) = sentSet c"
  "sentSet (c\<lparr>p_results := r\<rparr>) = sentSet c"
  "sentSet (c\<lparr>p_transmitted := p_transmitted c @ [(i, packed)]\<rparr>) = insert i (sentSet c)"
  by (simp_all add: sentSet_def)

lemma phase_ok_mono: "phase_ok R n X ph \<Longrightarrow> n \<le> n' \<Longrightarrow> phase_ok R n' X ph"
  by (auto simp: phase_ok_def split: worker.splits)

lemma phase_ok_held: "phase_ok R n X ph \<Longrightarrow> holding ph = Some i \<Longrightarrow> i < n"
  by (auto simp: phase_ok_def split: worker.splits)

lemma pool_inv_claim:
  assumes inv: "pool_inv S0 T key c" and w: "w < length (p_workers c)"
    and cl: "p_workers c ! w = Claiming"
    and claim: "claimIndex T (us_uploaded (p_state c)) (p_nextIndex c) = (r, n')"
    and ph': "ph' = (case r of None \<Rightarrow> Returned | Some i \<Rightarrow> AwaitRead i)"
  shows "pool_inv S0 T key (setWorker w ph' (c\<lparr>p_nextIndex := n'\<rparr>))"
proof (rule pool_invI)
  let ?ws = "p_workers c" and ?n = "p_nextIndex c" and ?c' = "setWorker w ph' (c\<lparr>p_nextIndex := n'\<rparr>)"
  note D = pool_invD [OF inv]
  note spec = claimIndex_spec [OF D(3) claim]
  have nn': "?n \<le> n'" and n'T: "n' \<le> T"
    using spec D(3) by (auto split: option.splits)
  have skipped: "\<forall>j. ?n \<le> j \<and> j < n' \<longrightarrow> j \<in> recordedSet c \<or> r = Some j"
    using spec by (auto simp: recordedSet_def split: option.splits)
  have newok: "phase_ok (recordedSet c) n' (sentSet c) ph'"
  proof (cases r)
    case None
    then show ?thesis by (simp add: ph' phase_ok_def)
  next
    case (Some i)
    with spec have i: "n' = i + 1" "?n \<le> i" "us_uploaded (p_state c) i = None" by simp_all
    have "i \<notin> sentSet c" using D(7) i(2) by auto
    with i Some show ?thesis by (auto simp: ph' phase_ok_def recordedSet_def)
  qed
  show "\<forall>v<length (p_workers ?c'). phase_ok (recordedSet ?c') (p_nextIndex ?c') (sentSet ?c') (p_workers ?c' ! v)"
    using D(1) newok nn' w by (auto simp: nth_list_update intro: phase_ok_mono)
  have free: "\<forall>v<length ?ws. holding (?ws ! v) \<noteq> holding ph'" if "r \<noteq> None"
  proof (intro allI impI)
    fix v assume v: "v < length ?ws"
    from that obtain i where r: "r = Some i" by auto
    with spec have i: "?n \<le> i" by simp
    show "holding (?ws ! v) \<noteq> holding ph'"
    proof
      assume "holding (?ws ! v) = holding ph'"
      then have "holding (?ws ! v) = Some i" by (simp add: ph' r)
      with D(1) v have "i < ?n" using phase_ok_held by blast
      with i show False by simp
    qed
  qed
  show "exclusive (p_workers ?c')"
  proof (cases r)
    case None
    then have "holding ph' = None" by (simp add: ph')
    with exclusive_update [OF D(2) w] show ?thesis by simp
  next
    case (Some i)
    with exclusive_take [OF D(2) w] free show ?thesis by simp
  qed
  show "p_nextIndex ?c' \<le> T" using n'T by simp
  show "noneThrew (p_workers ?c') \<longrightarrow> (\<forall>i<p_nextIndex ?c'. i \<in> recordedSet ?c' \<or>
           (\<exists>v<length (p_workers ?c'). holding (p_workers ?c' ! v) = Some i))"
  proof (intro impI allI)
    fix i assume nt: "noneThrew (p_workers ?c')" and i: "i < p_nextIndex ?c'"
    have nt0: "noneThrew ?ws"
      using noneThrew_before [of ?ws w ph'] nt cl by simp
    show "i \<in> recordedSet ?c' \<or> (\<exists>v<length (p_workers ?c'). holding (p_workers ?c' ! v) = Some i)"
    proof (cases "i < ?n")
      case True
      with D(4) nt0 have "i \<in> recordedSet c \<or> (\<exists>v<length ?ws. holding (?ws ! v) = Some i)" by simp
      then show ?thesis
      proof
        assume "i \<in> recordedSet c" then show ?thesis by simp
      next
        assume "\<exists>v<length ?ws. holding (?ws ! v) = Some i"
        then obtain v where v: "v < length ?ws" "holding (?ws ! v) = Some i" by blast
        with cl have "v \<noteq> w" by auto
        with v have "holding (p_workers ?c' ! v) = Some i" by simp
        with v show ?thesis by auto
      qed
    next
      case False
      with i skipped have "i \<in> recordedSet c \<or> r = Some i" by simp
      then show ?thesis
      proof
        assume "i \<in> recordedSet c" then show ?thesis by simp
      next
        assume "r = Some i"
        then have "holding (p_workers ?c' ! w) = Some i" using w by (simp add: ph')
        with w show ?thesis by auto
      qed
    qed
  qed
  show "(\<exists>v<length (p_workers ?c'). p_workers ?c' ! v = Returned) \<longrightarrow> p_nextIndex ?c' = T"
  proof
    assume "\<exists>v<length (p_workers ?c'). p_workers ?c' ! v = Returned"
    then obtain v where v: "v < length ?ws" "?ws[w := ph'] ! v = Returned" by auto
    show "p_nextIndex ?c' = T"
    proof (cases "v = w")
      case True
      with v have "ph' = Returned" by simp
      then have "r = None" by (simp add: ph' split: option.splits)
      with spec show ?thesis by simp
    next
      case False
      with v have "?ws ! v = Returned" by simp
      with D(5) v have "?n = T" by auto
      with nn' n'T show ?thesis by simp
    qed
  qed
  show "distinct (map fst (p_transmitted ?c'))" using D(6) by simp
  show "sentSet ?c' \<subseteq> {i. i \<notin> S0 \<and> i < p_nextIndex ?c'}" using D(7) nn' by auto
  show "recordedSet ?c' \<subseteq> S0 \<union> sentSet ?c'" using D(8) by simp
  show "S0 \<subseteq> recordedSet ?c'" using D(9) by simp
  show "\<forall>st. p_store ?c' key = Some st \<longrightarrow> dom (us_uploaded st) \<subseteq> recordedSet ?c'"
    using D(10) by simp
qed


lemma exclusive_other:
  assumes "exclusive ws" and "w < length ws" and "v < length ws" and "v \<noteq> w"
    and "holding (ws ! w) = Some i"
  shows "holding (ws ! v) \<noteq> Some i"
  using assms unfolding exclusive_def by (metis option.distinct(1))

lemma phase_ok_sent:
  "phase_ok R n X ph \<Longrightarrow> holding ph \<noteq> Some i \<Longrightarrow> phase_ok R n (insert i X) ph"
  by (auto simp: phase_ok_def split: worker.splits)

lemma phase_ok_recorded:
  "phase_ok R n X ph \<Longrightarrow> holding ph \<noteq> Some i \<Longrightarrow> phase_ok (insert i R) n X ph"
  by (auto simp: phase_ok_def split: worker.splits)

lemma pool_inv_send:
  assumes inv: "pool_inv S0 T key c" and w: "w < length (p_workers c)"
    and at: "p_workers c ! w = AwaitEncrypt i packed"
  shows "pool_inv S0 T key
     (setWorker w (AwaitUpload i packed) (c\<lparr>p_transmitted := p_transmitted c @ [(i, packed)]\<rparr>))"
proof (rule pool_invI)
  let ?ws = "p_workers c" and ?n = "p_nextIndex c"
  let ?c' = "setWorker w (AwaitUpload i packed) (c\<lparr>p_transmitted := p_transmitted c @ [(i, packed)]\<rparr>)"
  note D = pool_invD [OF inv]
  from D(1) w at have me: "i \<notin> recordedSet c" "i < ?n" "i \<notin> sentSet c"
    by (auto simp: phase_ok_def)
  have hw: "holding (?ws ! w) = Some i" using at by simp
  show "\<forall>v<length (p_workers ?c'). phase_ok (recordedSet ?c') (p_nextIndex ?c') (sentSet ?c') (p_workers ?c' ! v)"
  proof (intro allI impI)
    fix v assume "v < length (p_workers ?c')"
    then have v: "v < length ?ws" by simp
    show "phase_ok (recordedSet ?c') (p_nextIndex ?c') (sentSet ?c') (p_workers ?c' ! v)"
    proof (cases "v = w")
      case True
      with w me show ?thesis by (simp add: phase_ok_def)
    next
      case False
      from exclusive_other [OF D(2) w v False hw] D(1) v
      have "phase_ok (recordedSet c) ?n (insert i (sentSet c)) (?ws ! v)"
        by (simp add: phase_ok_sent)
      with False show ?thesis by simp
    qed
  qed
  show "exclusive (p_workers ?c')"
    using exclusive_update [OF D(2) w, of "AwaitUpload i packed"] at by simp
  show "p_nextIndex ?c' \<le> T" using D(3) by simp
  show "noneThrew (p_workers ?c') \<longrightarrow> (\<forall>j<p_nextIndex ?c'. j \<in> recordedSet ?c' \<or>
           (\<exists>v<length (p_workers ?c'). holding (p_workers ?c' ! v) = Some j))"
  proof (intro impI allI)
    fix j assume nt: "noneThrew (p_workers ?c')" and j: "j < p_nextIndex ?c'"
    have nt0: "noneThrew ?ws"
      using noneThrew_before [of ?ws w "AwaitUpload i packed"] nt at by simp
    with D(4) j have "j \<in> recordedSet c \<or> (\<exists>v<length ?ws. holding (?ws ! v) = Some j)" by simp
    then show "j \<in> recordedSet ?c' \<or> (\<exists>v<length (p_workers ?c'). holding (p_workers ?c' ! v) = Some j)"
    proof
      assume "j \<in> recordedSet c" then show ?thesis by simp
    next
      assume "\<exists>v<length ?ws. holding (?ws ! v) = Some j"
      then obtain v where v: "v < length ?ws" "holding (?ws ! v) = Some j" by blast
      then have "holding (p_workers ?c' ! v) = Some j"
        using at by (cases "v = w") auto
      with v show ?thesis by auto
    qed
  qed
  show "(\<exists>v<length (p_workers ?c'). p_workers ?c' ! v = Returned) \<longrightarrow> p_nextIndex ?c' = T"
  proof
    assume "\<exists>v<length (p_workers ?c'). p_workers ?c' ! v = Returned"
    then obtain v where v: "v < length ?ws" "?ws[w := AwaitUpload i packed] ! v = Returned" by auto
    then have "v \<noteq> w" by auto
    with v have "?ws ! v = Returned" by simp
    with D(5) v show "p_nextIndex ?c' = T" by auto
  qed
  show "distinct (map fst (p_transmitted ?c'))"
    using D(6) me(3) by (simp add: sentSet_def)
  show "sentSet ?c' \<subseteq> {i. i \<notin> S0 \<and> i < p_nextIndex ?c'}"
    using D(7) D(9) me by auto
  show "recordedSet ?c' \<subseteq> S0 \<union> sentSet ?c'" using D(8) by auto
  show "S0 \<subseteq> recordedSet ?c'" using D(9) by simp
  show "\<forall>st. p_store ?c' key = Some st \<longrightarrow> dom (us_uploaded st) \<subseteq> recordedSet ?c'"
    using D(10) by simp
qed

lemma pool_inv_record:
  assumes inv: "pool_inv S0 T key c" and w: "w < length (p_workers c)"
    and at: "p_workers c ! w = AwaitGet i cid"
    and st': "state' = (p_state c)\<lparr>us_uploaded := (us_uploaded (p_state c))(i \<mapsto> (cid, sz))\<rparr>"
  shows "pool_inv S0 T key
     (setWorker w (AwaitSet i cid)
        (c\<lparr>p_state := state', p_uploadedBytes := b,
           p_store := (p_store c)(key \<mapsto> state'), p_persisted := p_persisted c @ [state']\<rparr>))"
proof (rule pool_invI)
  let ?ws = "p_workers c" and ?n = "p_nextIndex c"
  let ?c' = "setWorker w (AwaitSet i cid)
        (c\<lparr>p_state := state', p_uploadedBytes := b,
           p_store := (p_store c)(key \<mapsto> state'), p_persisted := p_persisted c @ [state']\<rparr>)"
  note D = pool_invD [OF inv]
  from D(1) w at have me: "i \<notin> recordedSet c" "i < ?n" "i \<in> sentSet c"
    by (auto simp: phase_ok_def)
  have hw: "holding (?ws ! w) = Some i" using at by simp
  have R': "recordedSet ?c' = insert i (recordedSet c)"
    by (auto simp: recordedSet_def st' setWorker_def)
  have X': "sentSet ?c' = sentSet c" by (simp add: sentSet_def setWorker_def)
  have n': "p_nextIndex ?c' = ?n" by simp
  have ws': "p_workers ?c' = ?ws[w := AwaitSet i cid]" by simp
  show "\<forall>v<length (p_workers ?c'). phase_ok (recordedSet ?c') (p_nextIndex ?c') (sentSet ?c') (p_workers ?c' ! v)"
    unfolding R' X' n' ws'
  proof (intro allI impI)
    fix v assume "v < length (?ws[w := AwaitSet i cid])"
    then have v: "v < length ?ws" by simp
    show "phase_ok (insert i (recordedSet c)) ?n (sentSet c) (?ws[w := AwaitSet i cid] ! v)"
    proof (cases "v = w")
      case True
      with w me show ?thesis by (simp add: phase_ok_def)
    next
      case False
      from exclusive_other [OF D(2) w v False hw] D(1) v
      have "phase_ok (insert i (recordedSet c)) ?n (sentSet c) (?ws ! v)"
        by (simp add: phase_ok_recorded)
      with False show ?thesis by simp
    qed
  qed
  show "exclusive (p_workers ?c')"
    unfolding ws' using exclusive_update [OF D(2) w, of "AwaitSet i cid"] at by simp
  show "p_nextIndex ?c' \<le> T" using D(3) by simp
  show "noneThrew (p_workers ?c') \<longrightarrow> (\<forall>j<p_nextIndex ?c'. j \<in> recordedSet ?c' \<or>
           (\<exists>v<length (p_workers ?c'). holding (p_workers ?c' ! v) = Some j))"
    unfolding R' n' ws'
  proof (intro impI allI)
    fix j assume nt: "noneThrew (?ws[w := AwaitSet i cid])" and j: "j < ?n"
    have nt0: "noneThrew ?ws"
      using noneThrew_before [of ?ws w "AwaitSet i cid"] nt at by simp
    with D(4) j have "j \<in> recordedSet c \<or> (\<exists>v<length ?ws. holding (?ws ! v) = Some j)" by simp
    then show "j \<in> insert i (recordedSet c) \<or>
       (\<exists>v<length (?ws[w := AwaitSet i cid]). holding (?ws[w := AwaitSet i cid] ! v) = Some j)"
    proof
      assume "j \<in> recordedSet c" then show ?thesis by simp
    next
      assume "\<exists>v<length ?ws. holding (?ws ! v) = Some j"
      then obtain v where v: "v < length ?ws" "holding (?ws ! v) = Some j" by blast
      then have "holding (?ws[w := AwaitSet i cid] ! v) = Some j"
        using at by (cases "v = w") auto
      with v show ?thesis by auto
    qed
  qed
  show "(\<exists>v<length (p_workers ?c'). p_workers ?c' ! v = Returned) \<longrightarrow> p_nextIndex ?c' = T"
    unfolding n' ws'
  proof
    assume "\<exists>v<length (?ws[w := AwaitSet i cid]). ?ws[w := AwaitSet i cid] ! v = Returned"
    then obtain v where v: "v < length ?ws" "?ws[w := AwaitSet i cid] ! v = Returned" by auto
    then have "v \<noteq> w" by auto
    with v have "?ws ! v = Returned" by simp
    with D(5) v show "?n = T" by auto
  qed
  show "distinct (map fst (p_transmitted ?c'))" using D(6) by (simp add: setWorker_def)
  show "sentSet ?c' \<subseteq> {i. i \<notin> S0 \<and> i < p_nextIndex ?c'}"
    unfolding X' n' using D(7) by simp
  show "recordedSet ?c' \<subseteq> S0 \<union> sentSet ?c'" unfolding R' X' using D(8) me by auto
  show "S0 \<subseteq> recordedSet ?c'" unfolding R' using D(9) by auto
  show "\<forall>st. p_store ?c' key = Some st \<longrightarrow> dom (us_uploaded st) \<subseteq> recordedSet ?c'"
    unfolding R' by (auto simp: setWorker_def st' recordedSet_def)
qed


lemma step_preserves:
  assumes inv: "pool_inv S0 T (s_sessionKey S) c"
  shows "pool_inv S0 T (s_sessionKey S) (step E S file chunkSize T ev c)"
proof -
  obtain w answer where ev: "ev = (w, answer)" by (cases ev)
  note D = pool_invD [OF inv]
  show ?thesis
  proof (cases "w < length (p_workers c)")
    case False
    then show ?thesis using inv by (simp add: step_def ev)
  next
    case w: True
    have okw: "phase_ok (recordedSet c) (p_nextIndex c) (sentSet c) (p_workers c ! w)"
      using D(1) w by simp
    show ?thesis
    proof (cases "p_workers c ! w")
      case Claiming
      obtain r n' where cl: "claimIndex T (us_uploaded (p_state c)) (p_nextIndex c) = (r, n')"
        by (cases "claimIndex T (us_uploaded (p_state c)) (p_nextIndex c)")
      note spec = claimIndex_spec [OF D(3) cl]
      have "step E S file chunkSize T ev c =
          setWorker w (case r of None \<Rightarrow> Returned | Some i \<Rightarrow> AwaitRead i) (c\<lparr>p_nextIndex := n'\<rparr>)"
        using w Claiming cl spec by (auto simp: step_def ev split: option.splits)
      with pool_inv_claim [OF inv w Claiming cl refl] show ?thesis by simp
    next
      case (AwaitRead i)
      show ?thesis
      proof (cases "s_aesCryptoKey S")
        case None
        have eq: "step E S file chunkSize T ev c = throwFrom w AesKeyNotAvailable c"
          using w AwaitRead None by (simp add: step_def ev)
        show ?thesis unfolding eq
          by (rule pool_inv_rephase [OF inv w, where ph' = "Threw AesKeyNotAvailable"])
            (simp_all add: AwaitRead phase_ok_def)
      next
        case (Some k)
        let ?p = "fst (encryptChunk (ue_gcm E) k (ue_iv E i) (chunkBytes file chunkSize i) i)"
        have eq: "step E S file chunkSize T ev c = setWorker w (AwaitEncrypt i ?p) c"
          using w AwaitRead Some by (simp add: step_def ev)
        show ?thesis unfolding eq
          using okw
          by (intro pool_inv_rephase [OF inv w, where ph' = "AwaitEncrypt i ?p"])
            (simp_all add: AwaitRead phase_ok_def)
      qed
    next
      case (AwaitEncrypt i packed)
      have eq: "step E S file chunkSize T ev c =
          setWorker w (AwaitUpload i packed) (c\<lparr>p_transmitted := p_transmitted c @ [(i, packed)]\<rparr>)"
        using w AwaitEncrypt by (simp add: step_def ev)
      show ?thesis unfolding eq by (rule pool_inv_send [OF inv w AwaitEncrypt])
    next
      case (AwaitUpload i packed)
      show ?thesis
      proof (cases answer)
        case None
        have eq: "step E S file chunkSize T ev c = throwFrom w (ChunkUploadFailed i) c"
          using w AwaitUpload None by (simp add: step_def ev)
        show ?thesis unfolding eq
          by (rule pool_inv_rephase [OF inv w, where ph' = "Threw (ChunkUploadFailed i)"])
            (simp_all add: AwaitUpload phase_ok_def)
      next
        case (Some cid)
        have eq: "step E S file chunkSize T ev c = setWorker w (AwaitGet i cid) c"
          using w AwaitUpload Some by (simp add: step_def ev)
        show ?thesis unfolding eq
          using okw
          by (intro pool_inv_rephase [OF inv w, where ph' = "AwaitGet i cid"])
            (simp_all add: AwaitUpload phase_ok_def)
      qed
    next
      case (AwaitGet i cid)
      from okw have notrec: "i \<notin> recordedSet c" by (simp add: AwaitGet phase_ok_def)
      have nostored: "(case p_store c (s_sessionKey S) of None \<Rightarrow> None
                 | Some currentState \<Rightarrow> us_uploaded currentState i) = None"
      proof (cases "p_store c (s_sessionKey S)")
        case None then show ?thesis by simp
      next
        case (Some st)
        with D(10) have "dom (us_uploaded st) \<subseteq> recordedSet c" by simp
        with notrec have "us_uploaded st i = None" by auto
        with Some show ?thesis by simp
      qed
      let ?sz = "length (chunkBytes file chunkSize i)"
      let ?st = "(p_state c)\<lparr>us_uploaded := (us_uploaded (p_state c))(i \<mapsto> (cid, ?sz))\<rparr>"
      have eq: "step E S file chunkSize T ev c =
          setWorker w (AwaitSet i cid)
            (c\<lparr>p_state := ?st, p_uploadedBytes := p_uploadedBytes c + ?sz,
               p_store := (p_store c)(s_sessionKey S \<mapsto> ?st),
               p_persisted := p_persisted c @ [?st]\<rparr>)"
        using w AwaitGet nostored by (simp add: step_def ev Let_def)
      show ?thesis unfolding eq by (rule pool_inv_record [OF inv w AwaitGet refl])
    next
      case (AwaitSet i cid)
      have eq: "step E S file chunkSize T ev c =
          setWorker w Claiming (c\<lparr>p_results := (p_results c)(i \<mapsto> cid)\<rparr>)"
        using w AwaitSet by (simp add: step_def ev)
      show ?thesis unfolding eq
        using okw
        by (intro pool_inv_rephase [OF inv w, where ph' = Claiming])
          (simp_all add: AwaitSet phase_ok_def sentSet_def)
    next
      case Returned
      then show ?thesis using inv w by (simp add: step_def ev)
    next
      case (Threw e)
      then show ?thesis using inv w by (simp add: step_def ev)
    qed
  qed
qed

lemma runPool_preserves:
  "pool_inv S0 T (s_sessionKey S) c \<Longrightarrow>
     pool_inv S0 T (s_sessionKey S) (runPool E S file chunkSize T sched c)"
  unfolding runPool_def
  by (induction sched arbitrary: c) (simp_all add: step_preserves)

lemma resumeKey_agrees:
  "resumeKey E S = Inr S' \<Longrightarrow> storeAgrees S \<Longrightarrow> storeAgrees S'"
  unfolding resumeKey_def storeAgrees_def
  by (auto split: if_splits option.splits)

lemma freshKey_agrees:
  "freshKey E opts S = Inr S' \<Longrightarrow> storeAgrees S \<Longrightarrow> storeAgrees S'"
  unfolding freshKey_def storeAgrees_def Let_def
  by (auto split: if_splits option.splits)

lemma openSession_store:
  assumes "openSession E store file opts = Inr S"
  shows "storeAgrees S"
proof -
  from assms obtain ownerAddr where o: "resolveOwnerAddr E opts = Inr ownerAddr"
    unfolding openSession_def by (auto split: if_splits sum.splits)
  let ?key = "generateUploadId ownerAddr (ue_now E) (ue_random E)"
  let ?state = "case store ?key of Some loaded \<Rightarrow> loaded
      | None \<Rightarrow> freshState ?key file (o_chunkSize opts)
          (ceilDiv (length (f_content file)) (o_chunkSize opts))"
  let ?S = "\<lparr>s_sessionKey = ?key, s_ownerAddr = ownerAddr, s_state = ?state,
     s_aesCryptoKey = None, s_aesKeyBase64 = None, s_store = store, s_persisted = []\<rparr>"
  have base: "storeAgrees ?S"
    unfolding storeAgrees_def by (auto split: option.splits)
  from assms o have "resumeKey E ?S = Inr S \<or> freshKey E opts ?S = Inr S"
    unfolding openSession_def Let_def by (simp split: if_splits)
  then show ?thesis
    using resumeKey_agrees [OF _ base] freshKey_agrees [OF _ base] by blast
qed


lemma length_step [simp]:
  "length (p_workers (step E S file chunkSize T ev c)) = length (p_workers c)"
proof (cases "fst ev < length (p_workers c)")
  case False
  then show ?thesis by (simp add: step_def)
next
  case True
  show ?thesis
    by (cases "p_workers c ! fst ev")
      (simp_all add: step_def Let_def True split: option.splits prod.splits)
qed

lemma length_runPool [simp]:
  "length (p_workers (runPool E S file chunkSize T sched c)) = length (p_workers c)"
  unfolding runPool_def by (induction sched arbitrary: c) simp_all

lemma pool_inv_init:
  assumes "storeAgrees S"
  shows "pool_inv (dom (us_uploaded (s_state S))) T (s_sessionKey S) (initPool S C)"
proof (rule pool_invI)
  show "\<forall>w<length (p_workers (initPool S C)). phase_ok (recordedSet (initPool S C))
      (p_nextIndex (initPool S C)) (sentSet (initPool S C)) (p_workers (initPool S C) ! w)"
    by (simp add: initPool_def phase_ok_def)
  show "exclusive (p_workers (initPool S C))"
    by (simp add: initPool_def exclusive_def)
  show "p_nextIndex (initPool S C) \<le> T" by (simp add: initPool_def)
  show "noneThrew (p_workers (initPool S C)) \<longrightarrow> (\<forall>i<p_nextIndex (initPool S C).
      i \<in> recordedSet (initPool S C) \<or>
      (\<exists>w<length (p_workers (initPool S C)). holding (p_workers (initPool S C) ! w) = Some i))"
    by (simp add: initPool_def)
  show "(\<exists>w<length (p_workers (initPool S C)). p_workers (initPool S C) ! w = Returned) \<longrightarrow>
      p_nextIndex (initPool S C) = T"
    by (auto simp: initPool_def)
  show "distinct (map fst (p_transmitted (initPool S C)))" by (simp add: initPool_def)
  show "sentSet (initPool S C) \<subseteq> {i. i \<notin> dom (us_uploaded (s_state S)) \<and> i < p_nextIndex (initPool S C)}"
    by (simp add: initPool_def sentSet_def)
  show "recordedSet (initPool S C) \<subseteq> dom (us_uploaded (s_state S)) \<union> sentSet (initPool S C)"
    by (simp add: initPool_def recordedSet_def)
  show "dom (us_uploaded (s_state S)) \<subseteq> recordedSet (initPool S C)"
    by (simp add: initPool_def recordedSet_def)
  show "\<forall>st. p_store (initPool S C) (s_sessionKey S) = Some st \<longrightarrow>
      dom (us_uploaded st) \<subseteq> recordedSet (initPool S C)"
    using assms by (simp add: initPool_def recordedSet_def storeAgrees_def)
qed

text \<open>
  Claim C5. For every session the function opens, every number of workers from one up,
  every number of chunks and every schedule of the pool (every interleaving of the
  workers' continuations, with any answers of the proxy): at every moment no two workers
  hold the same index; and when all workers have returned, the indices handed to the proxy
  are pairwise distinct and are exactly the indices below the number of chunks that were
  not recorded when the pool started (all of them for a fresh session), and every index is
  recorded.
\<close>

theorem worker_pool_exactly_once:
  assumes "openSession E store file opts = Inr S" and "1 \<le> C"
  shows "let c = runPool E S file chunkSize T sched (initPool S C) in
     (\<forall>a b. a < C \<and> b < C \<and> a \<noteq> b \<and> holding (p_workers c ! a) \<noteq> None \<longrightarrow>
        holding (p_workers c ! a) \<noteq> holding (p_workers c ! b)) \<and>
     (allReturned c \<longrightarrow>
        distinct (map fst (p_transmitted c)) \<and>
        set (map fst (p_transmitted c)) = {0..<T} - dom (us_uploaded (s_state S)) \<and>
        {0..<T} \<subseteq> dom (us_uploaded (p_state c)))"
proof -
  let ?c = "runPool E S file chunkSize T sched (initPool S C)"
  let ?ws = "p_workers ?c"
  let ?S0 = "dom (us_uploaded (s_state S))"
  have inv: "pool_inv ?S0 T (s_sessionKey S) ?c"
    by (rule runPool_preserves [OF pool_inv_init [OF openSession_store [OF assms(1)]]])
  note D = pool_invD [OF inv]
  have len: "length ?ws = C" by (simp add: initPool_def)
  have excl: "\<forall>a b. a < C \<and> b < C \<and> a \<noteq> b \<and> holding (?ws ! a) \<noteq> None \<longrightarrow>
        holding (?ws ! a) \<noteq> holding (?ws ! b)"
  proof (intro allI impI)
    fix a b
    assume h: "a < C \<and> b < C \<and> a \<noteq> b \<and> holding (?ws ! a) \<noteq> None"
    then have "a < length ?ws" "b < length ?ws" "a \<noteq> b" "holding (?ws ! a) \<noteq> None"
      using len by simp_all
    with D(2) show "holding (?ws ! a) \<noteq> holding (?ws ! b)"
      unfolding exclusive_def by simp
  qed
  have fin: "distinct (map fst (p_transmitted ?c)) \<and>
        set (map fst (p_transmitted ?c)) = {0..<T} - ?S0 \<and>
        {0..<T} \<subseteq> dom (us_uploaded (p_state ?c))" if all: "allReturned ?c"
  proof -
    from all have ret: "\<forall>w<length ?ws. ?ws ! w = Returned"
      unfolding allReturned_def list_all_length by simp
    then have nt: "noneThrew ?ws" unfolding noneThrew_def by simp
    from assms(2) len have "0 < length ?ws" by simp
    with ret have "\<exists>w<length ?ws. ?ws ! w = Returned" by blast
    with D(5) have n: "p_nextIndex ?c = T" by simp
    have nohold: "\<not> (\<exists>w<length ?ws. holding (?ws ! w) = Some i)" for i
      using ret by auto
    have cover: "\<forall>i<T. i \<in> recordedSet ?c"
    proof (intro allI impI)
      fix i assume "i < T"
      with D(4) nt n have "i \<in> recordedSet ?c \<or> (\<exists>w<length ?ws. holding (?ws ! w) = Some i)"
        by simp
      with nohold [of i] show "i \<in> recordedSet ?c" by blast
    qed
    have sent: "sentSet ?c = {0..<T} - ?S0"
    proof
      show "sentSet ?c \<subseteq> {0..<T} - ?S0" using D(7) n by auto
      show "{0..<T} - ?S0 \<subseteq> sentSet ?c" using cover D(8) by auto
    qed
    have "set (map fst (p_transmitted ?c)) = sentSet ?c" by (simp add: sentSet_def)
    with sent D(6) cover show ?thesis by (auto simp: recordedSet_def)
  qed
  from fin have fin': "allReturned ?c \<longrightarrow> distinct (map fst (p_transmitted ?c)) \<and>
        set (map fst (p_transmitted ?c)) = {0..<T} - ?S0 \<and>
        {0..<T} \<subseteq> dom (us_uploaded (p_state ?c))" by (rule impI)
  show ?thesis unfolding Let_def using excl fin' by (rule conjI)
qed


lemma demoSession_opened:
  "openSession (demoUploadEnv 2000 ''p7q'') Map.empty demoFile demoOpts = Inr demoSession"
proof -
  have "\<not> isl (openSession (demoUploadEnv 2000 ''p7q'') Map.empty demoFile demoOpts)"
    by code_simp
  then show ?thesis unfolding demoSession_def by simp
qed

lemma demoPool_returned: "allReturned demoPool"
  by code_simp

lemma demoPool_sent: "map fst (p_transmitted demoPool) = [0, 1, 2, 3, 4]"
  by code_simp

theorem worker_pool_exactly_once_witness:
  "openSession (demoUploadEnv 2000 ''p7q'') Map.empty demoFile demoOpts = Inr demoSession \<and>
   (1::nat) \<le> 2 \<and>
   allReturned demoPool \<and>
   map fst (p_transmitted demoPool) = [0, 1, 2, 3, 4] \<and>
   distinct (map fst (p_transmitted demoPool)) \<and>
   set (map fst (p_transmitted demoPool)) = {0..<5} - dom (us_uploaded (s_state demoSession))"
proof -
  have c: "(1::nat) \<le> 2" by simp
  from worker_pool_exactly_once [OF demoSession_opened c, of 2 5 secondSchedule]
  have "allReturned demoPool \<longrightarrow>
        distinct (map fst (p_transmitted demoPool)) \<and>
        set (map fst (p_transmitted demoPool)) = {0..<5} - dom (us_uploaded (s_state demoSession))"
    unfolding demoPool_def Let_def by simp
  with demoPool_returned demoSession_opened demoPool_sent c show ?thesis by simp
qed

section \<open>Properties of the persisted snapshots and of resumption\<close>

lemma prov_rephase:
  assumes inv: "prov_inv A c"
    and ws: "p_workers c' = (p_workers c)[w := ph']"
    and same: "p_state c' = p_state c" "p_persisted c' = p_persisted c"
    and ok: "\<forall>i cid. ph' = AwaitGet i cid \<longrightarrow> cid \<in> A"
  shows "prov_inv A c'"
proof -
  have "\<forall>ph\<in>set ((p_workers c)[w := ph']). \<forall>i cid. ph = AwaitGet i cid \<longrightarrow> cid \<in> A"
  proof
    fix ph assume "ph \<in> set ((p_workers c)[w := ph'])"
    then have "ph = ph' \<or> ph \<in> set (p_workers c)"
      using set_update_subset_insert [of "p_workers c" w ph'] by auto
    with inv ok show "\<forall>i cid. ph = AwaitGet i cid \<longrightarrow> cid \<in> A"
      unfolding prov_inv_def by auto
  qed
  with inv show ?thesis unfolding prov_inv_def ws same by simp
qed

lemma state_strings_record:
  "state_strings (st\<lparr>us_uploaded := (us_uploaded st)(i \<mapsto> (cid, sz))\<rparr>)
     \<subseteq> insert cid (state_strings st)"
  unfolding state_strings_def by (auto split: if_splits)

lemma prov_step:
  assumes inv: "prov_inv A c" and ans: "\<forall>cid. snd ev = Some cid \<longrightarrow> cid \<in> A"
  shows "prov_inv A (step E S file chunkSize T ev c)"
proof -
  obtain w answer where ev: "ev = (w, answer)" by (cases ev)
  show ?thesis
  proof (cases "w < length (p_workers c)")
    case False
    then show ?thesis using inv by (simp add: step_def ev)
  next
    case w: True
    show ?thesis
    proof (cases "p_workers c ! w")
      case Claiming
      obtain r n' where cl: "claimIndex T (us_uploaded (p_state c)) (p_nextIndex c) = (r, n')"
        by (cases "claimIndex T (us_uploaded (p_state c)) (p_nextIndex c)")
      have st: "step E S file chunkSize T ev c =
          (case r of None \<Rightarrow> setWorker w Returned (c\<lparr>p_nextIndex := n'\<rparr>)
           | Some i \<Rightarrow>
               if \<not> i < T then setWorker w Returned (c\<lparr>p_nextIndex := n'\<rparr>)
               else if us_uploaded (p_state c) i \<noteq> None
               then setWorker w Claiming (c\<lparr>p_nextIndex := n'\<rparr>)
               else setWorker w (AwaitRead i) (c\<lparr>p_nextIndex := n'\<rparr>))"
        using w Claiming cl by (simp add: step_def ev)
      have "\<exists>ph'. step E S file chunkSize T ev c = setWorker w ph' (c\<lparr>p_nextIndex := n'\<rparr>) \<and>
          (\<forall>i cid. ph' \<noteq> AwaitGet i cid)"
      proof (cases r)
        case None
        with st have "step E S file chunkSize T ev c = setWorker w Returned (c\<lparr>p_nextIndex := n'\<rparr>)"
          by simp
        then show ?thesis by blast
      next
        case (Some i)
        show ?thesis
        proof (cases "i < T")
          case False
          with st Some have "step E S file chunkSize T ev c = setWorker w Returned (c\<lparr>p_nextIndex := n'\<rparr>)"
            by simp
          then show ?thesis by blast
        next
          case True
          show ?thesis
          proof (cases "us_uploaded (p_state c) i = None")
            case free: True
            with st Some True
            have "step E S file chunkSize T ev c = setWorker w (AwaitRead i) (c\<lparr>p_nextIndex := n'\<rparr>)"
              by simp
            then show ?thesis by blast
          next
            case taken: False
            with st Some True
            have "step E S file chunkSize T ev c = setWorker w Claiming (c\<lparr>p_nextIndex := n'\<rparr>)"
              by simp
            then show ?thesis by blast
          qed
        qed
      qed
      then obtain ph' where eq: "step E S file chunkSize T ev c = setWorker w ph' (c\<lparr>p_nextIndex := n'\<rparr>)"
        and nog: "\<forall>i cid. ph' \<noteq> AwaitGet i cid"
        by blast
      show ?thesis unfolding eq
        by (rule prov_rephase [OF inv, where w = w and ph' = ph']) (simp_all add: nog)
    next
      case (AwaitRead i)
      show ?thesis
      proof (cases "s_aesCryptoKey S")
        case None
        have eq: "step E S file chunkSize T ev c = throwFrom w AesKeyNotAvailable c"
          using w AwaitRead None by (simp add: step_def ev)
        show ?thesis unfolding eq
          by (rule prov_rephase [OF inv, where w = w and ph' = "Threw AesKeyNotAvailable"]) simp_all
      next
        case (Some k)
        let ?p = "fst (encryptChunk (ue_gcm E) k (ue_iv E i) (chunkBytes file chunkSize i) i)"
        have eq: "step E S file chunkSize T ev c = setWorker w (AwaitEncrypt i ?p) c"
          using w AwaitRead Some by (simp add: step_def ev)
        show ?thesis unfolding eq
          by (rule prov_rephase [OF inv, where w = w and ph' = "AwaitEncrypt i ?p"]) simp_all
      qed
    next
      case (AwaitEncrypt i packed)
      have eq: "step E S file chunkSize T ev c =
          setWorker w (AwaitUpload i packed) (c\<lparr>p_transmitted := p_transmitted c @ [(i, packed)]\<rparr>)"
        using w AwaitEncrypt by (simp add: step_def ev)
      show ?thesis unfolding eq
        by (rule prov_rephase [OF inv, where w = w and ph' = "AwaitUpload i packed"]) simp_all
    next
      case (AwaitUpload i packed)
      show ?thesis
      proof (cases answer)
        case None
        have eq: "step E S file chunkSize T ev c = throwFrom w (ChunkUploadFailed i) c"
          using w AwaitUpload None by (simp add: step_def ev)
        show ?thesis unfolding eq
          by (rule prov_rephase [OF inv, where w = w and ph' = "Threw (ChunkUploadFailed i)"]) simp_all
      next
        case (Some cid)
        have eq: "step E S file chunkSize T ev c = setWorker w (AwaitGet i cid) c"
          using w AwaitUpload Some by (simp add: step_def ev)
        have "cid \<in> A" using ans Some by (simp add: ev)
        then show ?thesis unfolding eq
          by (intro prov_rephase [OF inv, where w = w and ph' = "AwaitGet i cid"]) simp_all
      qed
    next
      case (AwaitGet i cid)
      have "p_workers c ! w \<in> set (p_workers c)" using w by simp
      with inv AwaitGet have cid: "cid \<in> A" unfolding prov_inv_def by auto
      let ?sz = "length (chunkBytes file chunkSize i)"
      let ?st = "(p_state c)\<lparr>us_uploaded := (us_uploaded (p_state c))(i \<mapsto> (cid, ?sz))\<rparr>"
      have st: "state_strings ?st \<subseteq> A"
        using state_strings_record [of "p_state c" i cid ?sz] inv cid
        unfolding prov_inv_def by auto
      show ?thesis
      proof (cases "case p_store c (s_sessionKey S) of None \<Rightarrow> None
                 | Some currentState \<Rightarrow> us_uploaded currentState i")
        case None
        have eq: "step E S file chunkSize T ev c =
          setWorker w (AwaitSet i cid)
            (c\<lparr>p_state := ?st, p_uploadedBytes := p_uploadedBytes c + ?sz,
               p_store := (p_store c)(s_sessionKey S \<mapsto> ?st),
               p_persisted := p_persisted c @ [?st]\<rparr>)"
          using w AwaitGet None by (simp add: step_def ev Let_def)
        have base: "prov_inv A (c\<lparr>p_state := ?st, p_uploadedBytes := p_uploadedBytes c + ?sz,
               p_store := (p_store c)(s_sessionKey S \<mapsto> ?st),
               p_persisted := p_persisted c @ [?st]\<rparr>)"
          using inv st unfolding prov_inv_def by simp
        show ?thesis unfolding eq
          by (rule prov_rephase [OF base, where w = w and ph' = "AwaitSet i cid"]) simp_all
      next
        case (Some other)
        obtain otherCid otherSize where o: "other = (otherCid, otherSize)" by (cases other)
        have eq: "step E S file chunkSize T ev c =
            setWorker w Claiming (c\<lparr>p_results := (p_results c)(i \<mapsto> otherCid)\<rparr>)"
          using w AwaitGet Some o by (simp add: step_def ev)
        show ?thesis unfolding eq
          by (rule prov_rephase [OF inv, where w = w and ph' = Claiming]) simp_all
      qed
    next
      case (AwaitSet i cid)
      have eq: "step E S file chunkSize T ev c =
          setWorker w Claiming (c\<lparr>p_results := (p_results c)(i \<mapsto> cid)\<rparr>)"
        using w AwaitSet by (simp add: step_def ev)
      show ?thesis unfolding eq
        by (rule prov_rephase [OF inv, where w = w and ph' = Claiming]) simp_all
    next
      case Returned
      then show ?thesis using inv w by (simp add: step_def ev)
    next
      case (Threw e)
      then show ?thesis using inv w by (simp add: step_def ev)
    qed
  qed
qed

lemma prov_runPool:
  "prov_inv A c \<Longrightarrow> \<forall>w cid. (w, Some cid) \<in> set sched \<longrightarrow> cid \<in> A \<Longrightarrow>
     prov_inv A (runPool E S file chunkSize T sched c)"
  unfolding runPool_def
proof (induction sched arbitrary: c)
  case Nil
  then show ?case by simp
next
  case (Cons ev sched)
  have "\<forall>cid. snd ev = Some cid \<longrightarrow> cid \<in> A"
    using Cons.prems(2) by (cases ev) auto
  from prov_step [OF Cons.prems(1) this]
  have "prov_inv A (step E S file chunkSize T ev c)" .
  moreover have "\<forall>w cid. (w, Some cid) \<in> set sched \<longrightarrow> cid \<in> A"
    using Cons.prems(2) by auto
  ultimately show ?case using Cons.IH by simp
qed

lemma resumeKey_prov:
  assumes "resumeKey E B = Inr S"
  shows "s_sessionKey S = s_sessionKey B \<and> s_state S = s_state B \<and> s_persisted S = s_persisted B"
  using assms unfolding resumeKey_def by (auto split: if_splits option.splits)

lemma freshKey_prov:
  assumes "freshKey E opts B = Inr S"
  shows "s_sessionKey S = s_sessionKey B \<and> s_ownerAddr S = s_ownerAddr B \<and>
     ((s_state S = s_state B \<and> s_persisted S = s_persisted B) \<or>
      (\<exists>k e. s_aesKeyBase64 S = Some k \<and> encryptKeyForOwner E (s_ownerAddr B) k = Some e \<and>
             s_state S = (s_state B)\<lparr>us_encryptedAesForOwner := Some e\<rparr> \<and>
             s_persisted S = s_persisted B @ [s_state S]))"
  using assms unfolding freshKey_def Let_def by (auto split: if_splits option.splits)

lemma state_strings_enc:
  "state_strings (st\<lparr>us_encryptedAesForOwner := Some e\<rparr>) \<subseteq> insert e (state_strings st)"
  unfolding state_strings_def by auto

lemma state_strings_meta:
  "state_strings (st\<lparr>us_metadataCid := Some m\<rparr>) \<subseteq> insert m (state_strings st)"
  unfolding state_strings_def by auto

lemma state_strings_reg:
  "state_strings (st\<lparr>us_registeredAt := Some t, us_onChainTx := Some tx\<rparr>)
     \<subseteq> insert tx (state_strings st)"
  unfolding state_strings_def by auto

lemma state_strings_fresh:
  "state_strings (freshState key file cs T) \<subseteq> {key, f_name file, f_type file, ''application/octet-stream''}"
  unfolding state_strings_def freshState_def by auto

lemma outside_key:
  "s_sessionKey S = s_sessionKey B \<Longrightarrow>
     outside_strings E S store file sched = outside_strings E B store file sched"
  unfolding outside_strings_def by simp

lemma openSession_prov:
  assumes "openSession E store file opts = Inr S"
  shows "state_strings (s_state S) \<subseteq> outside_strings E S store file sched \<union> owner_encrypted E S \<and>
     (\<forall>p\<in>set (s_persisted S).
        state_strings p \<subseteq> outside_strings E S store file sched \<union> owner_encrypted E S)"
proof -
  from assms obtain ownerAddr where o: "resolveOwnerAddr E opts = Inr ownerAddr"
    unfolding openSession_def by (auto split: if_splits sum.splits)
  let ?key = "generateUploadId ownerAddr (ue_now E) (ue_random E)"
  let ?state = "case store ?key of Some loaded \<Rightarrow> loaded
      | None \<Rightarrow> freshState ?key file (o_chunkSize opts)
          (ceilDiv (length (f_content file)) (o_chunkSize opts))"
  let ?B = "\<lparr>s_sessionKey = ?key, s_ownerAddr = ownerAddr, s_state = ?state,
     s_aesCryptoKey = None, s_aesKeyBase64 = None, s_store = store, s_persisted = []\<rparr>"
  have base: "state_strings ?state \<subseteq> outside_strings E ?B store file sched"
  proof (cases "store ?key")
    case None
    have "state_strings ?state \<subseteq> {?key, f_name file, f_type file, ''application/octet-stream''}"
      using None by (simp add: state_strings_fresh)
    then show ?thesis
      unfolding outside_strings_def by auto
  next
    case (Some loaded)
    then show ?thesis unfolding outside_strings_def by auto
  qed
  from assms o have "resumeKey E ?B = Inr S \<or> freshKey E opts ?B = Inr S"
    unfolding openSession_def Let_def by (simp split: if_splits)
  then show ?thesis
  proof
    assume "resumeKey E ?B = Inr S"
    from resumeKey_prov [OF this] have k: "s_sessionKey S = s_sessionKey ?B"
      and s: "s_state S = ?state" and p: "s_persisted S = []" by simp_all
    from base show ?thesis
      unfolding outside_key [OF k] s p by auto
  next
    assume "freshKey E opts ?B = Inr S"
    from freshKey_prov [OF this] have k: "s_sessionKey S = s_sessionKey ?B"
      and ow: "s_ownerAddr S = ownerAddr"
      and alt: "(s_state S = ?state \<and> s_persisted S = []) \<or>
        (\<exists>k e. s_aesKeyBase64 S = Some k \<and> encryptKeyForOwner E ownerAddr k = Some e \<and>
             s_state S = ?state\<lparr>us_encryptedAesForOwner := Some e\<rparr> \<and>
             s_persisted S = [s_state S])"
      by simp_all
    from alt show ?thesis
    proof
      assume "s_state S = ?state \<and> s_persisted S = []"
      with base show ?thesis unfolding outside_key [OF k] by auto
    next
      assume "\<exists>k e. s_aesKeyBase64 S = Some k \<and> encryptKeyForOwner E ownerAddr k = Some e \<and>
             s_state S = ?state\<lparr>us_encryptedAesForOwner := Some e\<rparr> \<and>
             s_persisted S = [s_state S]"
      then obtain kk e where kk: "s_aesKeyBase64 S = Some kk"
        and e: "encryptKeyForOwner E ownerAddr kk = Some e"
        and s: "s_state S = ?state\<lparr>us_encryptedAesForOwner := Some e\<rparr>"
        and p: "s_persisted S = [s_state S]" by blast
      have "e \<in> owner_encrypted E S"
        unfolding owner_encrypted_def using kk e ow by simp
      with state_strings_enc [where st = ?state and e = e] base
      have "state_strings (s_state S) \<subseteq> outside_strings E ?B store file sched \<union> owner_encrypted E S"
        unfolding s by auto
      then show ?thesis unfolding outside_key [OF k] p by simp
    qed
  qed
qed

lemma finish_prov:
  assumes inv: "prov_inv A c"
    and m: "\<forall>mf cid. ue_uploadMetadata E mf = Some cid \<longrightarrow> cid \<in> A"
    and r: "\<forall>a b tx. ue_register E a b = Some tx \<longrightarrow> tx \<in> A"
  shows "\<forall>p\<in>set (r_persisted (finishUpload E S opts T c)). state_strings p \<subseteq> A"
proof -
  from inv have st: "state_strings (p_state c) \<subseteq> A"
    and old: "\<forall>p\<in>set (p_persisted c). state_strings p \<subseteq> A"
    unfolding prov_inv_def by simp_all
  have s1: "state_strings ((p_state c)\<lparr>us_metadataCid := Some cid\<rparr>) \<subseteq> A"
    if "ue_uploadMetadata E mf = Some cid" for mf cid
    using state_strings_meta [where st = "p_state c" and m = cid] st m that by blast
  have s2: "state_strings ((p_state c)\<lparr>us_metadataCid := Some cid,
       us_registeredAt := Some t, us_onChainTx := Some tx\<rparr>) \<subseteq> A"
    if "ue_uploadMetadata E mf = Some cid" "ue_register E a b = Some tx" for mf cid a b tx t
    using state_strings_reg [where st = "(p_state c)\<lparr>us_metadataCid := Some cid\<rparr>" and t = t
        and tx = tx] s1 [OF that(1)]
      r that(2) by auto
  show ?thesis
    unfolding finishUpload_def Let_def
    using old s1 s2 by (auto split: sum.splits option.splits if_splits)
qed

lemma prov_init:
  assumes "state_strings (s_state S) \<subseteq> A" and "\<forall>p\<in>set (s_persisted S). state_strings p \<subseteq> A"
  shows "prov_inv A (initPool S C)"
  using assms unfolding prov_inv_def initPool_def by simp

text \<open>
  Claim C1. On every path of \<open>chunkedUploadFile\<close> (every store, file, options, answers of
  the outside and schedule of the pool, whether the function returns, throws or is still
  running), every snapshot written by \<open>set(sessionKey, state)\<close> belongs to a session that
  was opened, and every string it holds is one that came from outside the key (the session
  key, the file's name and type, what the store held, an answer of the proxy, the
  transaction hash) or is the owner-encrypted key string. So the base64 export of the AES
  key, unless the outside supplied that very string, is in no snapshot; and the snapshot,
  whose other fields are numbers, has no field that could hold the key itself.
\<close>

theorem persisted_holds_no_raw_key:
  "\<forall>snap\<in>set (r_persisted (chunkedUploadFile E store file opts sched)).
     \<exists>S. openSession E store file opts = Inr S \<and>
         state_strings snap \<subseteq> outside_strings E S store file sched \<union> owner_encrypted E S \<and>
         (\<forall>k. s_aesKeyBase64 S = Some k \<and> k \<notin> outside_strings E S store file sched \<and>
              k \<notin> owner_encrypted E S \<longrightarrow> k \<notin> state_strings snap)"
proof (cases "openSession E store file opts")
  case (Inl e)
  then show ?thesis by (simp add: chunkedUploadFile_def)
next
  case (Inr S)
  let ?A = "outside_strings E S store file sched \<union> owner_encrypted E S"
  let ?T = "ceilDiv (length (f_content file)) (o_chunkSize opts)"
  let ?c = "runPool E S file (o_chunkSize opts) ?T sched (initPool S (o_concurrency opts))"
  from openSession_prov [OF Inr, of sched]
  have init: "prov_inv ?A (initPool S (o_concurrency opts))"
    by (intro prov_init) simp_all
  have answers: "\<forall>w cid. (w, Some cid) \<in> set sched \<longrightarrow> cid \<in> ?A"
    unfolding outside_strings_def by auto
  have inv: "prov_inv ?A ?c"
    by (rule prov_runPool [OF init answers])
  then have old: "\<forall>p\<in>set (p_persisted ?c). state_strings p \<subseteq> ?A"
    unfolding prov_inv_def by simp
  have m: "\<forall>mf cid. ue_uploadMetadata E mf = Some cid \<longrightarrow> cid \<in> ?A"
    and r: "\<forall>a b tx. ue_register E a b = Some tx \<longrightarrow> tx \<in> ?A"
    unfolding outside_strings_def by auto
  note fin = finish_prov [OF inv m r, of S opts ?T]
  have all: "\<forall>snap\<in>set (r_persisted (chunkedUploadFile E store file opts sched)).
      state_strings snap \<subseteq> ?A"
    unfolding chunkedUploadFile_def Let_def using Inr old fin
    by (simp split: option.splits)
  show ?thesis
  proof
    fix snap assume "snap \<in> set (r_persisted (chunkedUploadFile E store file opts sched))"
    with all have sub: "state_strings snap \<subseteq> ?A" by simp
    then have "\<forall>k. s_aesKeyBase64 S = Some k \<and> k \<notin> outside_strings E S store file sched \<and>
              k \<notin> owner_encrypted E S \<longrightarrow> k \<notin> state_strings snap"
      by auto
    with sub Inr show "\<exists>S. openSession E store file opts = Inr S \<and>
         state_strings snap \<subseteq> outside_strings E S store file sched \<union> owner_encrypted E S \<and>
         (\<forall>k. s_aesKeyBase64 S = Some k \<and> k \<notin> outside_strings E S store file sched \<and>
              k \<notin> owner_encrypted E S \<longrightarrow> k \<notin> state_strings snap)"
      by blast
  qed
qed


lemma demoSession_fields:
  "s_sessionKey demoSession = ''upload_0xabc_2000_p7q''"
  "s_aesKeyBase64 demoSession = Some ''a2V5''"
  by code_simp+

lemma demo_key_not_encrypted:
  "''a2V5'' \<notin> owner_encrypted (demoUploadEnv 2000 ''p7q'') demoSession"
  by code_simp

lemma demo_key_not_answered: "Some ''a2V5'' \<notin> snd ` set secondSchedule"
  by code_simp

lemma demo_key_outside:
  "''a2V5'' \<notin> outside_strings (demoUploadEnv 2000 ''p7q'') demoSession Map.empty demoFile
      secondSchedule"
proof -
  have "\<forall>w. (w, Some ''a2V5'') \<notin> set secondSchedule"
    using demo_key_not_answered by force
  then show ?thesis
    unfolding outside_strings_def demoSession_fields
    by (simp add: demoFile_def demoUploadEnv_def)
qed

lemma demoRun_snapshots: "length (r_persisted demoRun) = 7"
  by code_simp

theorem persisted_holds_no_raw_key_witness:
  "last (r_persisted demoRun) \<in> set (r_persisted demoRun) \<and>
   s_aesKeyBase64 demoSession = Some ''a2V5'' \<and>
   ''a2V5'' \<notin> outside_strings (demoUploadEnv 2000 ''p7q'') demoSession Map.empty demoFile
      secondSchedule \<and>
   ''a2V5'' \<notin> owner_encrypted (demoUploadEnv 2000 ''p7q'') demoSession \<and>
   ''a2V5'' \<notin> state_strings (last (r_persisted demoRun))"
proof -
  have ne: "r_persisted demoRun \<noteq> []" using demoRun_snapshots by auto
  then have mem: "last (r_persisted demoRun) \<in> set (r_persisted demoRun)" by simp
  from persisted_holds_no_raw_key [of "demoUploadEnv 2000 ''p7q''" Map.empty demoFile demoOpts
      secondSchedule] mem
  obtain S where S: "openSession (demoUploadEnv 2000 ''p7q'') Map.empty demoFile demoOpts = Inr S"
    and k: "\<forall>k. s_aesKeyBase64 S = Some k \<and>
       k \<notin> outside_strings (demoUploadEnv 2000 ''p7q'') S Map.empty demoFile secondSchedule \<and>
       k \<notin> owner_encrypted (demoUploadEnv 2000 ''p7q'') S \<longrightarrow>
       k \<notin> state_strings (last (r_persisted demoRun))"
    unfolding demoRun_def by blast
  from S demoSession_opened have "S = demoSession" by simp
  with k demoSession_fields(2) demo_key_outside demo_key_not_encrypted
  have "''a2V5'' \<notin> state_strings (last (r_persisted demoRun))" by blast
  with mem demoSession_fields(2) demo_key_outside demo_key_not_encrypted show ?thesis by simp
qed

text \<open>
  Claim C4 on the code. The first run records chunks 0, 1 and 2 under its session key and
  is interrupted. The second run, on the same file and the store the first run left, makes
  a new session key from the clock and \<open>Math.random\<close>, finds nothing under it, and hands
  all five chunks to the proxy again, 0, 1 and 2 included; its manifest lists the indices
  0 to 4 once each.
\<close>

theorem resume_uploads_every_chunk_again:
  "recordedIndices (r_store firstRun) ''upload_0xabc_1000_k3x'' 5 = [0, 1, 2] \<and>
   recordedIndices (r_store firstRun) ''upload_0xabc_2000_p7q'' 5 = [] \<and>
   map fst (r_transmitted secondRun) = [0, 1, 2, 3, 4] \<and>
   (case r_outcome secondRun of
      Some (Inr res) \<Rightarrow> ur_sessionKey res = ''upload_0xabc_2000_p7q'' \<and>
         map mc_index (mf_chunks (ur_metadata res)) = [0, 1, 2, 3, 4]
    | _ \<Rightarrow> False)"
  by code_simp

text \<open>
  Were the second run to look under the first run's session key, it would skip the
  recorded chunks: the code that resumes is there, and is never reached.
\<close>

lemma resume_under_the_same_key:
  "map fst (r_transmitted (chunkedUploadFile (demoUploadEnv 1000 ''k3x'') (r_store firstRun)
      demoFile demoOpts secondSchedule)) = [3, 4]"
  by code_simp

end
